theory Spec2Isabelle
  imports
    Main
    "HOL-Library.FSet"
    "HOL-Library.Mapping"
    "HOL-Library.Char_ord"
    "HOL-Library.List_Lexorder"
begin

section \<open>The installer screens of \<^verbatim>\<open>notcurses_components.py\<close>\<close>

text \<open>
  Every screen class of the module owns a \<^verbatim>\<open>show\<close> method: it paints the terminal, then
  reads key events and either returns a value to its caller or keeps looping. The drawing
  calls (\<^verbatim>\<open>clear\<close>, \<^verbatim>\<open>draw_box\<close>, \<^verbatim>\<open>draw_centered_text\<close>, \<^verbatim>\<open>putstr_yx\<close>, \<^verbatim>\<open>render\<close>) only write
  to the terminal plane of the graphics library and never touch a field of the screen
  object, so the model below leaves the painting out of the interactive screens and keeps
  what decides their control flow: the fields, the key read and the \<^verbatim>\<open>if\<close>/\<^verbatim>\<open>elif\<close>
  chain on the key. Python strings are modelled as \<^typ>\<open>string\<close>; all key names the code
  compares against are ASCII.
\<close>

subsection \<open>Python primitives\<close>

datatype error = IndexError | ZeroDivisionError

text \<open>\<^verbatim>\<open>xs[i]\<close>: a negative index counts from the end, anything else out of range raises.\<close>

definition py_index :: "'a list \<Rightarrow> int \<Rightarrow> error + 'a" where
  "py_index xs i =
     (if 0 \<le> i \<and> i < int (length xs) then Inr (xs ! nat i)
      else if i < 0 \<and> - int (length xs) \<le> i then Inr (xs ! nat (int (length xs) + i))
      else Inl IndexError)"

text \<open>\<^verbatim>\<open>a % b\<close> on Python integers: the result has the sign of \<open>b\<close>, as \<open>mod\<close> on \<^typ>\<open>int\<close>.\<close>

definition py_mod :: "int \<Rightarrow> int \<Rightarrow> error + int" where
  "py_mod a b = (if b = 0 then Inl ZeroDivisionError else Inr (a mod b))"

text \<open>\<^verbatim>\<open>str.lower\<close>, on the ASCII letters.\<close>

definition char_lower :: "char \<Rightarrow> char" where
  "char_lower c =
     (if CHR ''A'' \<le> c \<and> c \<le> CHR ''Z'' then char_of (of_char c + (32 :: nat)) else c)"

definition lower :: "string \<Rightarrow> string" where
  "lower s = map char_lower s"

text \<open>The decimal text of an integer, as an f-string prints it.\<close>

definition digit_char :: "nat \<Rightarrow> char" where
  "digit_char d = char_of (of_char (CHR ''0'') + d)"

fun str_nat :: "nat \<Rightarrow> string" where
  "str_nat n = (if n < 10 then [digit_char n] else str_nat (n div 10) @ [digit_char (n mod 10)])"

declare str_nat.simps [simp del]

definition str_int :: "int \<Rightarrow> string" where
  "str_int i = (if i < 0 then CHR ''-'' # str_nat (nat (- i)) else str_nat (nat i))"

subsection \<open>Key events and the result of a \<^verbatim>\<open>show\<close> call\<close>

text \<open>
  An input event of the graphics library: \<open>ev_id\<close> is \<open>None\<close> when the event object has
  no attribute \<^verbatim>\<open>id\<close>.
\<close>

record key_event =
  is_release :: bool
  ev_id :: "string option"

definition wait_for_key :: "key_event \<Rightarrow> string" where
  "wait_for_key ev =
     (if is_release ev then ''''
      else (case ev_id ev of Some k \<Rightarrow> k | None \<Rightarrow> ''''))"

definition press :: "string \<Rightarrow> key_event" where
  "press k = \<lparr>is_release = False, ev_id = Some k\<rparr>"

definition NL :: string where "NL = [CHR 0x0A]"
definition CR :: string where "CR = [CHR 0x0D]"

text \<open>
  \<^verbatim>\<open>show\<close> is annotated \<^verbatim>\<open>-> str\<close> or \<^verbatim>\<open>-> Any\<close>; the values it returns are strings and, in
  one place, \<^verbatim>\<open>list(self.selected_drives)\<close>. The order in which a Python set is listed
  is not determined by the program, so that list is modelled by the set of its elements.
\<close>

datatype show_value = Str string | Drives "string fset"

fun is_str :: "show_value \<Rightarrow> bool" where
  "is_str (Str _) = True"
| "is_str (Drives _) = False"

text \<open>One pass through the body of a \<^verbatim>\<open>while True\<close> loop, after the key has been read.\<close>

datatype 's step = Return show_value | Continue 's | Raise error

text \<open>
  A call of \<^verbatim>\<open>show\<close> on a finite sequence of pending input events: it returns a value
  (with the state of the screen at that moment and the events it has not read), raises,
  or has read every event and is blocked in \<^verbatim>\<open>getc_blocking\<close>.
\<close>

datatype 's outcome =
    Returned show_value 's "key_event list"
  | Raised error
  | Blocked 's

fun key_loop :: "('s \<Rightarrow> string \<Rightarrow> 's step) \<Rightarrow> 's \<Rightarrow> key_event list \<Rightarrow> 's outcome" where
  "key_loop h s [] = Blocked s"
| "key_loop h s (ev # evs) =
     (case h s (wait_for_key ev) of
        Return r \<Rightarrow> Returned r s evs
      | Raise e \<Rightarrow> Raised e
      | Continue s' \<Rightarrow> key_loop h s' evs)"

fun final_state :: "'s outcome \<Rightarrow> 's option" where
  "final_state (Returned r s evs) = Some s"
| "final_state (Raised e) = None"
| "final_state (Blocked s) = Some s"

fun returned_value :: "'s outcome \<Rightarrow> show_value option" where
  "returned_value (Returned r s evs) = Some r"
| "returned_value (Raised e) = None"
| "returned_value (Blocked s) = None"

fun has_raised :: "'s outcome \<Rightarrow> bool" where
  "has_raised (Raised e) = True"
| "has_raised (Returned r s evs) = False"
| "has_raised (Blocked s) = False"

subsection \<open>WelcomeScreen\<close>

definition welcome_key :: "'s \<Rightarrow> string \<Rightarrow> 's step" where
  "welcome_key s key =
     (if key = NL \<or> key = CR \<or> key = '' '' then Return (Str ''next'')
      else if lower key = ''q'' then Return (Str ''quit'')
      else Continue s)"

definition welcome_show :: "'s \<Rightarrow> key_event list \<Rightarrow> 's outcome" where
  "welcome_show s evs = key_loop welcome_key s evs"

subsection \<open>ModeSelectionScreen\<close>

record mode_screen =
  selected :: int
  modes :: "(string \<times> string \<times> string) list"

definition ModeSelectionScreen :: mode_screen where
  "ModeSelectionScreen =
     \<lparr>selected = 0,
      modes = [(''new'', ''New Installation'', ''Install ZFS on empty drives (DESTROYS data)''),
               (''existing'', ''Migrate System'', ''Copy running system to new ZFS installation'')]\<rparr>"

definition mode_key :: "mode_screen \<Rightarrow> string \<Rightarrow> mode_screen step" where
  "mode_key s key =
     (if key = NL \<or> key = CR then
        (case py_index (modes s) (selected s) of
           Inl e \<Rightarrow> Raise e
         | Inr m \<Rightarrow> Return (Str (fst m)))
      else if key = ''j'' \<or> key = ''down'' then
        (case py_mod (selected s + 1) (int (length (modes s))) of
           Inl e \<Rightarrow> Raise e
         | Inr i \<Rightarrow> Continue (s\<lparr>selected := i\<rparr>))
      else if key = ''k'' \<or> key = ''up'' then
        (case py_mod (selected s - 1) (int (length (modes s))) of
           Inl e \<Rightarrow> Raise e
         | Inr i \<Rightarrow> Continue (s\<lparr>selected := i\<rparr>))
      else if key = ''escape'' then Return (Str ''back'')
      else if lower key = ''q'' then Return (Str ''quit'')
      else Continue s)"

definition mode_show :: "mode_screen \<Rightarrow> key_event list \<Rightarrow> mode_screen outcome" where
  "mode_show s evs = key_loop mode_key s evs"

subsection \<open>DeviceSelectionScreen\<close>

record dev_info =
  size_bytes :: int
  model :: string
  dev_type :: string

record device_screen =
  devices :: "(string, dev_info) mapping"
  selected_drives :: "string fset"
  cursor :: int
  device_list :: "string list"

text \<open>The constructor: \<^verbatim>\<open>set(selected_drives)\<close>, cursor 0, \<^verbatim>\<open>sorted(devices.keys())\<close>.\<close>

definition DeviceSelectionScreen ::
    "(string, dev_info) mapping \<Rightarrow> string list \<Rightarrow> device_screen" where
  "DeviceSelectionScreen devs sel =
     \<lparr>devices = devs,
      selected_drives = fset_of_list sel,
      cursor = 0,
      device_list = Mapping.ordered_keys devs\<rparr>"

definition format_size :: "int \<Rightarrow> string" where
  "format_size sz =
     (let gb = sz div (1024 ^ 3)
      in if gb > 1024 then str_int (gb div 1024) @ ''TB'' else str_int gb @ ''GB'')"

definition device_key :: "device_screen \<Rightarrow> string \<Rightarrow> device_screen step" where
  "device_key s key =
     (if key = NL \<or> key = CR then
        (if fcard (selected_drives s) > 0 then Return (Drives (selected_drives s))
         else Continue s)
      else if key = '' '' then
        (if device_list s \<noteq> [] then
           (case py_index (device_list s) (cursor s) of
              Inl e \<Rightarrow> Raise e
            | Inr dev \<Rightarrow>
                (if dev |\<in>| selected_drives s
                 then Continue (s\<lparr>selected_drives := selected_drives s |-| {|dev|}\<rparr>)
                 else Continue (s\<lparr>selected_drives := finsert dev (selected_drives s)\<rparr>)))
         else Continue s)
      else if key = ''j'' \<or> key = ''down'' then
        (if device_list s \<noteq> [] then
           (case py_mod (cursor s + 1) (int (length (device_list s))) of
              Inl e \<Rightarrow> Raise e
            | Inr i \<Rightarrow> Continue (s\<lparr>cursor := i\<rparr>))
         else Continue s)
      else if key = ''k'' \<or> key = ''up'' then
        (if device_list s \<noteq> [] then
           (case py_mod (cursor s - 1) (int (length (device_list s))) of
              Inl e \<Rightarrow> Raise e
            | Inr i \<Rightarrow> Continue (s\<lparr>cursor := i\<rparr>))
         else Continue s)
      else if key = ''escape'' then Return (Str ''back'')
      else if lower key = ''q'' then Return (Str ''quit'')
      else Continue s)"

definition device_show :: "device_screen \<Rightarrow> key_event list \<Rightarrow> device_screen outcome" where
  "device_show s evs = key_loop device_key s evs"

subsection \<open>The placeholder screens\<close>

definition settings_key :: "'s \<Rightarrow> string \<Rightarrow> 's step" where
  "settings_key s key =
     (if key = NL \<or> key = CR then Return (Str ''next'')
      else if key = ''escape'' then Return (Str ''back'')
      else if lower key = ''q'' then Return (Str ''quit'')
      else Continue s)"

definition settings_show :: "'s \<Rightarrow> key_event list \<Rightarrow> 's outcome" where
  "settings_show s evs = key_loop settings_key s evs"

definition validation_key :: "'s \<Rightarrow> string \<Rightarrow> 's step" where
  "validation_key s key =
     (if key = NL \<or> key = CR then Return (Str ''valid'')
      else if key = ''escape'' then Return (Str ''back'')
      else if lower key = ''q'' then Return (Str ''quit'')
      else Continue s)"

definition validation_show :: "'s \<Rightarrow> key_event list \<Rightarrow> 's outcome" where
  "validation_show s evs = key_loop validation_key s evs"

definition confirmation_key :: "'s \<Rightarrow> string \<Rightarrow> 's step" where
  "confirmation_key s key =
     (if lower key = ''y'' then Return (Str ''proceed'')
      else if lower key = ''n'' \<or> key = ''escape'' then Return (Str ''back'')
      else if lower key = ''q'' then Return (Str ''quit'')
      else Continue s)"

definition confirmation_show :: "'s \<Rightarrow> key_event list \<Rightarrow> 's outcome" where
  "confirmation_show s evs = key_loop confirmation_key s evs"

text \<open>
  \<^verbatim>\<open>InstallationScreen.show\<close> has no loop and no key read. Its body is short enough to
  keep every call it makes, in order, as a list of effects.
\<close>

datatype effect =
    Clear
  | DrawCenteredText int string nat
  | Render
  | Sleep nat

definition installation_show :: "'s \<Rightarrow> key_event list \<Rightarrow> effect list \<times> 's outcome" where
  "installation_show s evs =
     ([Clear,
       DrawCenteredText 5 ''Installation Screen - Coming Soon!'' 0x00ff00,
       DrawCenteredText 7 ''Simulating installation...'' 0xffff00,
       Render,
       Sleep 3],
      Returned (Str ''success'') s evs)"

text \<open>\<^verbatim>\<open>CompletionScreen.show\<close> reads one key, whatever it is, and returns.\<close>

fun completion_show :: "'s \<Rightarrow> key_event list \<Rightarrow> 's outcome" where
  "completion_show s [] = Blocked s"
| "completion_show s (ev # evs) = Returned (Str ''quit'') s evs"

fun is_sleep :: "effect \<Rightarrow> bool" where
  "is_sleep (Sleep n) = True"
| "is_sleep Clear = False"
| "is_sleep (DrawCenteredText y t c) = False"
| "is_sleep Render = False"

subsection \<open>Bounds of the cursors\<close>

text \<open>What it means for the cursor of a list screen to be a valid position of its list.\<close>

definition selected_in_bounds :: "mode_screen \<Rightarrow> bool" where
  "selected_in_bounds s \<longleftrightarrow> 0 \<le> selected s \<and> selected s < int (length (modes s))"

definition cursor_in_bounds :: "device_screen \<Rightarrow> bool" where
  "cursor_in_bounds s \<longleftrightarrow> 0 \<le> cursor s \<and> cursor s < int (length (device_list s))"

subsection \<open>Sample inputs\<close>

definition one_drive :: "(string, dev_info) mapping" where
  "one_drive =
     Mapping.update ''sda''
       \<lparr>size_bytes = 500 * 1024 ^ 3, model = ''Samsung SSD 870'', dev_type = ''ssd''\<rparr>
       Mapping.empty"

definition two_drives :: "(string, dev_info) mapping" where
  "two_drives =
     Mapping.update ''sdb''
       \<lparr>size_bytes = 2048 * 1024 ^ 3, model = ''WDC WD20EZRZ'', dev_type = ''hdd''\<rparr>
       one_drive"

section \<open>Properties\<close>

subsection \<open>The key loop\<close>

text \<open>
  Whatever holds of the starting state and is kept by every pass that continues holds of
  the state in which the loop returns or waits for more input.
\<close>

lemma key_loop_invariant:
  assumes step: "\<And>s k s'. P s \<Longrightarrow> h s k = Continue s' \<Longrightarrow> P s'"
  shows "P s \<Longrightarrow> final_state (key_loop h s evs) = Some s' \<Longrightarrow> P s'"
proof (induction evs arbitrary: s)
  case Nil
  then show ?case by simp
next
  case (Cons ev evs)
  show ?case
  proof (cases "h s (wait_for_key ev)")
    case (Return r)
    with Cons.prems show ?thesis by simp
  next
    case (Continue t)
    with Cons.prems step have "P t" by blast
    with Cons.IH Cons.prems Continue show ?thesis by simp
  next
    case (Raise e)
    with Cons.prems show ?thesis by simp
  qed
qed

lemma key_loop_no_raise:
  assumes step: "\<And>s k s'. P s \<Longrightarrow> h s k = Continue s' \<Longrightarrow> P s'"
    and safe: "\<And>s k e. P s \<Longrightarrow> h s k \<noteq> Raise e"
  shows "P s \<Longrightarrow> \<not> has_raised (key_loop h s evs)"
proof (induction evs arbitrary: s)
  case Nil
  then show ?case by simp
next
  case (Cons ev evs)
  show ?case
  proof (cases "h s (wait_for_key ev)")
    case (Return r)
    then show ?thesis by simp
  next
    case (Continue t)
    with Cons.prems step have "P t" by blast
    with Cons.IH Continue show ?thesis by simp
  next
    case (Raise e)
    with Cons.prems safe show ?thesis by blast
  qed
qed

lemma key_loop_returned_value:
  assumes step: "\<And>s k s'. P s \<Longrightarrow> h s k = Continue s' \<Longrightarrow> P s'"
    and ret: "\<And>s k r. P s \<Longrightarrow> h s k = Return r \<Longrightarrow> Q s r"
  shows "P s \<Longrightarrow> key_loop h s evs = Returned r s' rest \<Longrightarrow> Q s' r"
proof (induction evs arbitrary: s)
  case Nil
  then show ?case by simp
next
  case (Cons ev evs)
  show ?case
  proof (cases "h s (wait_for_key ev)")
    case (Return v)
    with Cons.prems have "v = r" "s' = s" by simp_all
    with Return ret Cons.prems show ?thesis by blast
  next
    case (Continue t)
    with Cons.prems step have "P t" by blast
    with Cons.IH Cons.prems Continue show ?thesis by simp
  next
    case (Raise e)
    with Cons.prems show ?thesis by simp
  qed
qed

text \<open>
  A key on which every pass returns ends the loop, provided no pass raises before it is
  read.
\<close>

lemma key_loop_returns:
  assumes step: "\<And>s k s'. P s \<Longrightarrow> h s k = Continue s' \<Longrightarrow> P s'"
    and safe: "\<And>s k e. P s \<Longrightarrow> h s k \<noteq> Raise e"
    and quit: "\<And>s. P s \<Longrightarrow> h s q = Return (Str ''quit'')"
  shows "P s \<Longrightarrow> q \<in> wait_for_key ` set evs \<Longrightarrow> returned_value (key_loop h s evs) \<noteq> None"
proof (induction evs arbitrary: s)
  case Nil
  then show ?case by simp
next
  case (Cons ev evs)
  show ?case
  proof (cases "h s (wait_for_key ev)")
    case (Return v)
    then show ?thesis by simp
  next
    case (Continue t)
    with Cons.prems step have t: "P t" by blast
    from Continue quit Cons.prems have "wait_for_key ev \<noteq> q" by auto
    with Cons.prems have "q \<in> wait_for_key ` set evs" by auto
    with Cons.IH t Continue show ?thesis by simp
  next
    case (Raise e)
    with Cons.prems safe show ?thesis by blast
  qed
qed

lemma wait_for_key_press [simp]: "wait_for_key (press k) = k"
  by (simp add: wait_for_key_def press_def)

lemma fcard_pos_iff: "fcard A > 0 \<longleftrightarrow> A \<noteq> {||}"
  by (metis fcard_0_eq gr_zeroI less_numeral_extra(3))

subsection \<open>Continuing from the device selection\<close>

lemma device_key_Return:
  "device_key s k = Return r \<Longrightarrow>
     r = Str ''back'' \<or> r = Str ''quit'' \<or>
     (r = Drives (selected_drives s) \<and> selected_drives s \<noteq> {||})"
  unfolding device_key_def
  by (simp add: fcard_pos_iff split: if_splits sum.splits)

lemma device_show_enter:
  "wait_for_key ev = NL \<or> wait_for_key ev = CR \<Longrightarrow>
      device_show s (ev # evs) =
        (if selected_drives s = {||} then device_show s evs
         else Returned (Drives (selected_drives s)) s evs)"
  by (auto simp: device_show_def device_key_def fcard_pos_iff)

lemma device_show_Drives:
  assumes "device_show s evs = Returned (Drives d) s' rest"
  shows "d = selected_drives s' \<and> d \<noteq> {||}"
proof -
  have ret: "\<forall>d. r = Drives d \<longrightarrow> d = selected_drives t \<and> d \<noteq> {||}"
    if "device_key t k = Return r" for t k r
    using device_key_Return [OF that] by auto
  from assms have run: "key_loop device_key s evs = Returned (Drives d) s' rest"
    by (simp add: device_show_def)
  have "\<forall>d'. Drives d = Drives d' \<longrightarrow> d' = selected_drives s' \<and> d' \<noteq> {||}"
    using key_loop_returned_value
      [where P = "\<lambda>_. True" and h = device_key
         and Q = "\<lambda>t r. \<forall>d. r = Drives d \<longrightarrow> d = selected_drives t \<and> d \<noteq> {||}"
         and s = s and evs = evs and r = "Drives d" and s' = s' and rest = rest]
      ret run
    by blast
  then show ?thesis by blast
qed

text \<open>
  C1. In \<^verbatim>\<open>DeviceSelectionScreen.show\<close> an ENTER key (\<^verbatim>\<open>'\n'\<close> or \<^verbatim>\<open>'\r'\<close>) returns the selected
  drives only when the selection set is not empty. In a state whose selection set is
  empty the key does not end \<^verbatim>\<open>show\<close>: the loop goes on with the same state and reads the
  next event. Whenever \<^verbatim>\<open>show\<close> returns drives at all, they are the selection set at that
  moment and there is at least one.
\<close>

theorem device_enter_requires_selection:
  "(wait_for_key ev = NL \<or> wait_for_key ev = CR \<longrightarrow>
      device_show s (ev # evs) =
        (if selected_drives s = {||} then device_show s evs
         else Returned (Drives (selected_drives s)) s evs))
   \<and> (device_show t evs' = Returned (Drives d) t' rest \<longrightarrow>
        d = selected_drives t' \<and> d \<noteq> {||})"
  using device_show_enter [of ev s evs] device_show_Drives [of t evs' d t' rest]
  by blast

theorem device_enter_requires_selection_witness:
  "wait_for_key (press NL) = NL
   \<and> device_show (DeviceSelectionScreen one_drive []) [press NL, press ''q'']
       = device_show (DeviceSelectionScreen one_drive []) [press ''q'']
   \<and> device_show (DeviceSelectionScreen one_drive []) [press ''q'']
       = Returned (Str ''quit'') (DeviceSelectionScreen one_drive []) []
   \<and> device_show (DeviceSelectionScreen one_drive [''sda'']) [press CR]
       = Returned (Drives {|''sda''|}) (DeviceSelectionScreen one_drive [''sda'']) []
   \<and> {|''sda''|} = selected_drives (DeviceSelectionScreen one_drive [''sda''])"
proof -
  have q: "device_show (DeviceSelectionScreen one_drive []) [press ''q'']
       = Returned (Str ''quit'') (DeviceSelectionScreen one_drive []) []"
    by (simp add: device_show_def device_key_def NL_def CR_def lower_def char_lower_def)
  have r: "device_show (DeviceSelectionScreen one_drive [''sda'']) [press CR]
       = Returned (Drives {|''sda''|}) (DeviceSelectionScreen one_drive [''sda'']) []"
    by (simp add: device_show_def device_key_def NL_def CR_def DeviceSelectionScreen_def)
  have e: "selected_drives (DeviceSelectionScreen one_drive []) = {||}"
    by (simp add: DeviceSelectionScreen_def)
  from device_enter_requires_selection
         [of "press NL" "DeviceSelectionScreen one_drive []" "[press ''q'']"
             "DeviceSelectionScreen one_drive [''sda'']" "[press CR]" "{|''sda''|}"
             "DeviceSelectionScreen one_drive [''sda'']" "[]"]
       q r e
  show ?thesis by simp
qed

subsection \<open>The installation placeholder\<close>

text \<open>
  C7. \<^verbatim>\<open>InstallationScreen.show\<close> does no installation work and reads no input: whatever
  state it was constructed with and whatever events are pending, it leaves both as they
  are, sleeps once for three seconds and returns the string \<^verbatim>\<open>"success"\<close>.
\<close>

theorem installation_show_success:
  "snd (installation_show s evs) = Returned (Str ''success'') s evs
   \<and> filter is_sleep (fst (installation_show s evs)) = [Sleep 3]"
  by (simp add: installation_show_def)

subsection \<open>Size formatting\<close>

lemma format_size_unfold:
  "format_size sz =
     (if sz div 1024 ^ 3 > 1024 then str_int (sz div 1024 ^ 3 div 1024) @ ''TB''
      else str_int (sz div 1024 ^ 3) @ ''GB'')"
  by (simp add: format_size_def Let_def)

lemma format_size_1024: "format_size (1024 * 1024 ^ 3) = ''1024GB''"
  by code_simp

text \<open>
  C9. \<^verbatim>\<open>format_size\<close> divides the size by \<open>1024\<^sup>3\<close>, rounding down, and prints terabytes only
  when that number of gigabytes is strictly greater than 1024; a size of exactly
  \<open>1024 \<sqdot> 1024\<^sup>3\<close> bytes is printed as \<^verbatim>\<open>1024GB\<close>, not as \<^verbatim>\<open>1TB\<close>.
\<close>

theorem format_size_threshold:
  "format_size sz =
     (if sz div 1024 ^ 3 > 1024 then str_int (sz div 1024 ^ 3 div 1024) @ ''TB''
      else str_int (sz div 1024 ^ 3) @ ''GB'')
   \<and> format_size (1024 * 1024 ^ 3) = ''1024GB''
   \<and> format_size (1024 * 1024 ^ 3) \<noteq> ''1TB''"
  using format_size_unfold [of sz] format_size_1024 by simp

subsection \<open>Single passes of the list screens\<close>

lemma wrap_down: "0 \<le> c \<Longrightarrow> c < n \<Longrightarrow> (c + 1) mod n = (if c = n - 1 then 0 else c + 1)" for c n :: int
  by simp

lemma wrap_up: "0 \<le> c \<Longrightarrow> c < n \<Longrightarrow> (c - 1) mod n = (if c = 0 then n - 1 else c - 1)" for c n :: int
  by (simp add: zmod_minus1)

lemma py_index_in_bounds: "0 \<le> i \<Longrightarrow> i < int (length xs) \<Longrightarrow> py_index xs i = Inr (xs ! nat i)"
  by (simp add: py_index_def)

lemma py_index_Nil: "py_index [] i = Inl IndexError"
  by (simp add: py_index_def)

lemma py_index_member: "py_index xs i = Inr x \<Longrightarrow> x \<in> set xs"
  by (auto simp: py_index_def split: if_splits)

lemma py_mod_pos: "0 < n \<Longrightarrow> py_mod a n = Inr (a mod n)"
  by (simp add: py_mod_def)

lemma mode_key_down:
  assumes "selected_in_bounds s" and "k = ''j'' \<or> k = ''down''"
  shows "mode_key s k =
           Continue (s\<lparr>selected := (if selected s = int (length (modes s)) - 1 then 0
                                     else selected s + 1)\<rparr>)"
proof -
  from assms(1) have b: "0 \<le> selected s" "selected s < int (length (modes s))"
    by (simp_all add: selected_in_bounds_def)
  then have pos: "0 < int (length (modes s))" by linarith
  have "py_mod (selected s + 1) (int (length (modes s)))
               = Inr (if selected s = int (length (modes s)) - 1 then 0 else selected s + 1)"
    using wrap_down [OF b] py_mod_pos [OF pos] by simp
  with assms(2) show ?thesis
    by (auto simp: mode_key_def NL_def CR_def)
qed

lemma mode_key_up:
  assumes "selected_in_bounds s" and "k = ''k'' \<or> k = ''up''"
  shows "mode_key s k =
           Continue (s\<lparr>selected := (if selected s = 0 then int (length (modes s)) - 1
                                     else selected s - 1)\<rparr>)"
proof -
  from assms(1) have b: "0 \<le> selected s" "selected s < int (length (modes s))"
    by (simp_all add: selected_in_bounds_def)
  then have pos: "0 < int (length (modes s))" by linarith
  have "py_mod (selected s - 1) (int (length (modes s)))
               = Inr (if selected s = 0 then int (length (modes s)) - 1 else selected s - 1)"
    using wrap_up [OF b] py_mod_pos [OF pos] by simp
  with assms(2) show ?thesis
    by (auto simp: mode_key_def NL_def CR_def)
qed

lemma device_key_down:
  assumes "cursor_in_bounds s" and "k = ''j'' \<or> k = ''down''"
  shows "device_key s k =
           Continue (s\<lparr>cursor := (if cursor s = int (length (device_list s)) - 1 then 0
                                   else cursor s + 1)\<rparr>)"
proof -
  from assms(1) have b: "0 \<le> cursor s" "cursor s < int (length (device_list s))"
    by (simp_all add: cursor_in_bounds_def)
  then have ne: "device_list s \<noteq> []" by auto
  from b have pos: "0 < int (length (device_list s))" by linarith
  have "py_mod (cursor s + 1) (int (length (device_list s)))
               = Inr (if cursor s = int (length (device_list s)) - 1 then 0 else cursor s + 1)"
    using wrap_down [OF b] py_mod_pos [OF pos] by simp
  with assms(2) ne show ?thesis
    by (auto simp: device_key_def NL_def CR_def)
qed

lemma device_key_up:
  assumes "cursor_in_bounds s" and "k = ''k'' \<or> k = ''up''"
  shows "device_key s k =
           Continue (s\<lparr>cursor := (if cursor s = 0 then int (length (device_list s)) - 1
                                   else cursor s - 1)\<rparr>)"
proof -
  from assms(1) have b: "0 \<le> cursor s" "cursor s < int (length (device_list s))"
    by (simp_all add: cursor_in_bounds_def)
  then have ne: "device_list s \<noteq> []" by auto
  from b have pos: "0 < int (length (device_list s))" by linarith
  have "py_mod (cursor s - 1) (int (length (device_list s)))
               = Inr (if cursor s = 0 then int (length (device_list s)) - 1 else cursor s - 1)"
    using wrap_up [OF b] py_mod_pos [OF pos] by simp
  with assms(2) ne show ?thesis
    by (auto simp: device_key_def NL_def CR_def)
qed

lemma device_key_space:
  assumes "cursor_in_bounds s"
  shows "device_key s '' '' =
           Continue (s\<lparr>selected_drives :=
             (if device_list s ! nat (cursor s) |\<in>| selected_drives s
              then selected_drives s |-| {|device_list s ! nat (cursor s)|}
              else finsert (device_list s ! nat (cursor s)) (selected_drives s))\<rparr>)"
proof -
  from assms have b: "0 \<le> cursor s" "cursor s < int (length (device_list s))"
    by (simp_all add: cursor_in_bounds_def)
  then have ne: "device_list s \<noteq> []" by auto
  from py_index_in_bounds [OF b] ne show ?thesis
    by (simp add: device_key_def NL_def CR_def)
qed

lemma key_cases [case_names enter space down up other]:
  fixes k :: string
  obtains "k = NL \<or> k = CR"
    | "k = '' ''"
    | "k = ''j'' \<or> k = ''down''"
    | "k = ''k'' \<or> k = ''up''"
    | "k \<noteq> NL" "k \<noteq> CR" "k \<noteq> '' ''" "k \<noteq> ''j''" "k \<noteq> ''down''" "k \<noteq> ''k''" "k \<noteq> ''up''"
  by blast

lemma mode_key_enter:
  "k = NL \<or> k = CR \<Longrightarrow>
     mode_key s k = (case py_index (modes s) (selected s) of
                       Inl e \<Rightarrow> Raise e | Inr m \<Rightarrow> Return (Str (fst m)))"
  by (auto simp: mode_key_def)

lemma mode_key_other:
  "k \<noteq> NL \<Longrightarrow> k \<noteq> CR \<Longrightarrow> k \<noteq> ''j'' \<Longrightarrow> k \<noteq> ''down'' \<Longrightarrow> k \<noteq> ''k'' \<Longrightarrow> k \<noteq> ''up'' \<Longrightarrow>
     mode_key s k = (if k = ''escape'' then Return (Str ''back'')
                     else if lower k = ''q'' then Return (Str ''quit'') else Continue s)"
  by (simp add: mode_key_def)

lemma mode_key_space: "mode_key s '' '' = Continue s"
  by (simp add: mode_key_def NL_def CR_def lower_def char_lower_def)

lemma device_key_enter:
  "k = NL \<or> k = CR \<Longrightarrow>
     device_key s k = (if selected_drives s \<noteq> {||} then Return (Drives (selected_drives s))
                       else Continue s)"
  by (auto simp: device_key_def fcard_pos_iff)

lemma device_key_other:
  "k \<noteq> NL \<Longrightarrow> k \<noteq> CR \<Longrightarrow> k \<noteq> '' '' \<Longrightarrow> k \<noteq> ''j'' \<Longrightarrow> k \<noteq> ''down'' \<Longrightarrow> k \<noteq> ''k'' \<Longrightarrow> k \<noteq> ''up'' \<Longrightarrow>
     device_key s k = (if k = ''escape'' then Return (Str ''back'')
                       else if lower k = ''q'' then Return (Str ''quit'') else Continue s)"
  by (simp add: device_key_def)

lemma device_key_empty_list:
  assumes "device_list s = []"
    and "k = '' '' \<or> k = ''j'' \<or> k = ''down'' \<or> k = ''k'' \<or> k = ''up''"
  shows "device_key s k = Continue s"
  using assms by (auto simp: device_key_def NL_def CR_def)

lemma mode_key_Continue:
  assumes inv: "selected_in_bounds s" and c: "mode_key s k = Continue s'"
  shows "selected_in_bounds s' \<and> modes s' = modes s"
proof (cases k rule: key_cases)
  case enter
  from inv have "py_index (modes s) (selected s) = Inr (modes s ! nat (selected s))"
    by (simp add: selected_in_bounds_def py_index_in_bounds)
  with c mode_key_enter [OF enter, of s] show ?thesis by simp
next
  case space
  with c inv show ?thesis by (simp add: mode_key_space)
next
  case down
  from c inv show ?thesis
    unfolding mode_key_down [OF inv down]
    by (auto simp: selected_in_bounds_def)
next
  case up
  from c inv show ?thesis
    unfolding mode_key_up [OF inv up]
    by (auto simp: selected_in_bounds_def)
next
  case other
  from c inv show ?thesis
    unfolding mode_key_other [OF other(1,2,4-7)]
    by (simp split: if_splits)
qed

lemma mode_key_no_Raise:
  assumes inv: "selected_in_bounds s"
  shows "mode_key s k \<noteq> Raise e"
proof (cases k rule: key_cases)
  case enter
  from inv have "py_index (modes s) (selected s) = Inr (modes s ! nat (selected s))"
    by (simp add: selected_in_bounds_def py_index_in_bounds)
  with mode_key_enter [OF enter, of s] show ?thesis by simp
next
  case space
  then show ?thesis by (simp add: mode_key_space)
next
  case down
  show ?thesis unfolding mode_key_down [OF inv down] by simp
next
  case up
  show ?thesis unfolding mode_key_up [OF inv up] by simp
next
  case other
  show ?thesis unfolding mode_key_other [OF other(1,2,4-7)] by simp
qed

lemma device_key_Continue:
  assumes inv: "device_list s \<noteq> [] \<longrightarrow> cursor_in_bounds s"
    and c: "device_key s k = Continue s'"
  shows "devices s' = devices s \<and> device_list s' = device_list s
         \<and> (device_list s' \<noteq> [] \<longrightarrow> cursor_in_bounds s')
         \<and> (device_list s = [] \<longrightarrow> s' = s)
         \<and> fset (selected_drives s') \<subseteq> fset (selected_drives s) \<union> set (device_list s)"
proof (cases "device_list s = []")
  case True
  show ?thesis
  proof (cases k rule: key_cases)
    case enter
    with c inv show ?thesis
      by (auto simp: device_key_enter split: if_splits)
  next
    case other
    from c inv show ?thesis
      unfolding device_key_other [OF other]
      by (auto split: if_splits)
  qed (use c inv True device_key_empty_list [of s k] in auto)
next
  case False
  with inv have b: "cursor_in_bounds s" by simp
  then have i: "nat (cursor s) < length (device_list s)"
    by (auto simp: cursor_in_bounds_def)
  show ?thesis
  proof (cases k rule: key_cases)
    case enter
    with c inv show ?thesis
      by (auto simp: device_key_enter split: if_splits)
  next
    case space
    from c b i False show ?thesis
      unfolding space device_key_space [OF b]
      by (auto simp: cursor_in_bounds_def split: if_splits)
  next
    case down
    from c b False show ?thesis
      unfolding device_key_down [OF b down]
      by (auto simp: cursor_in_bounds_def)
  next
    case up
    from c b False show ?thesis
      unfolding device_key_up [OF b up]
      by (auto simp: cursor_in_bounds_def)
  next
    case other
    from c inv show ?thesis
      unfolding device_key_other [OF other]
      by (auto split: if_splits)
  qed
qed

lemma device_key_no_Raise:
  assumes inv: "device_list s \<noteq> [] \<longrightarrow> cursor_in_bounds s"
  shows "device_key s k \<noteq> Raise e"
proof (cases k rule: key_cases)
  case enter
  then show ?thesis by (simp add: device_key_enter)
next
  case other
  show ?thesis unfolding device_key_other [OF other] by simp
next
  case space
  show ?thesis
  proof (cases "device_list s = []")
    case True
    with space show ?thesis by (simp add: device_key_empty_list)
  next
    case False
    with inv have "cursor_in_bounds s" by simp
    with space show ?thesis by (simp add: device_key_space)
  qed
next
  case down
  show ?thesis
  proof (cases "device_list s = []")
    case True
    with down show ?thesis using device_key_empty_list [of s k] by auto
  next
    case False
    with inv have "cursor_in_bounds s" by simp
    from device_key_down [OF this down] show ?thesis by simp
  qed
next
  case up
  show ?thesis
  proof (cases "device_list s = []")
    case True
    with up show ?thesis using device_key_empty_list [of s k] by auto
  next
    case False
    with inv have "cursor_in_bounds s" by simp
    from device_key_up [OF this up] show ?thesis by simp
  qed
qed


lemma ModeSelectionScreen_in_bounds: "selected_in_bounds ModeSelectionScreen"
  by (simp add: selected_in_bounds_def ModeSelectionScreen_def)

lemma mode_show_in_bounds:
  assumes "selected_in_bounds s" and "final_state (mode_show s evs) = Some s'"
  shows "selected_in_bounds s'"
proof -
  from assms(2) have "final_state (key_loop mode_key s evs) = Some s'"
    by (simp add: mode_show_def)
  with assms(1) show ?thesis
    by (rule key_loop_invariant [where P = selected_in_bounds, rotated]) (simp add: mode_key_Continue)
qed

lemma mode_show_no_raise:
  assumes "selected_in_bounds s"
  shows "\<not> has_raised (mode_show s evs)"
proof -
  from assms have "\<not> has_raised (key_loop mode_key s evs)"
    by (rule key_loop_no_raise [where P = selected_in_bounds, rotated 2])
       (simp_all add: mode_key_Continue mode_key_no_Raise)
  then show ?thesis by (simp add: mode_show_def)
qed

lemma device_show_invariant:
  assumes inv: "device_list s \<noteq> [] \<longrightarrow> cursor_in_bounds s"
    and sub: "fset (selected_drives s) \<subseteq> A" "set (device_list s) \<subseteq> A"
    and fin: "final_state (device_show s evs) = Some s'"
  shows "(device_list s' \<noteq> [] \<longrightarrow> cursor_in_bounds s')
         \<and> devices s' = devices s \<and> device_list s' = device_list s
         \<and> fset (selected_drives s') \<subseteq> A
         \<and> (device_list s = [] \<longrightarrow> s' = s)"
proof -
  let ?P = "\<lambda>t. (device_list t \<noteq> [] \<longrightarrow> cursor_in_bounds t)
         \<and> devices t = devices s \<and> device_list t = device_list s
         \<and> fset (selected_drives t) \<subseteq> A
         \<and> (device_list s = [] \<longrightarrow> t = s)"
  have step: "?P t'" if "?P t" "device_key t k = Continue t'" for t k t'
    using device_key_Continue [of t k t'] that sub(2) by auto
  from fin have "final_state (key_loop device_key s evs) = Some s'"
    by (simp add: device_show_def)
  moreover from inv sub have "?P s" by simp
  ultimately show ?thesis
    using key_loop_invariant [where P = ?P and h = device_key and s = s and evs = evs
            and s' = s'] step
    by blast
qed

lemma device_show_no_raise:
  assumes "device_list s \<noteq> [] \<longrightarrow> cursor_in_bounds s"
  shows "\<not> has_raised (device_show s evs)"
proof -
  have "\<not> has_raised (key_loop device_key s evs)"
  proof (rule key_loop_no_raise
           [where P = "\<lambda>s. device_list s \<noteq> [] \<longrightarrow> cursor_in_bounds s"])
    fix t k t'
    assume "device_list t \<noteq> [] \<longrightarrow> cursor_in_bounds t" "device_key t k = Continue t'"
    then show "device_list t' \<noteq> [] \<longrightarrow> cursor_in_bounds t'"
      using device_key_Continue [of t k t'] by blast
  next
    fix t k e
    assume "device_list t \<noteq> [] \<longrightarrow> cursor_in_bounds t"
    then show "device_key t k \<noteq> Raise e" by (rule device_key_no_Raise)
  next
    show "device_list s \<noteq> [] \<longrightarrow> cursor_in_bounds s" by (rule assms)
  qed
  then show ?thesis by (simp add: device_show_def)
qed

lemma DeviceSelectionScreen_inv:
  "device_list (DeviceSelectionScreen devs sel) \<noteq> [] \<longrightarrow>
     cursor_in_bounds (DeviceSelectionScreen devs sel)"
  by (simp add: DeviceSelectionScreen_def cursor_in_bounds_def)

lemma set_ordered_keys_subset: "set (Mapping.ordered_keys m) \<subseteq> Mapping.keys m"
  by (cases "finite (Mapping.keys m)") simp_all

subsection \<open>The cursor invariant and navigation\<close>

lemma py_index_bounds_ok:
  "0 \<le> i \<and> i < int (length xs) \<Longrightarrow> py_index xs i = Inr (xs ! nat i)"
  by (simp add: py_index_def)

text \<open>
  C3. After any sequence of key events the cursor of a list screen is a valid position of
  its list: \<open>0 \<le> selected < len(modes)\<close> in every \<^verbatim>\<open>ModeSelectionScreen\<close>, and
  \<open>0 \<le> cursor < len(device_list)\<close> in every \<^verbatim>\<open>DeviceSelectionScreen\<close> whose device list is
  not empty. Reading the list at the cursor therefore succeeds, and \<^verbatim>\<open>show\<close> never raises.
\<close>

theorem cursor_stays_in_bounds:
  "\<not> has_raised (mode_show ModeSelectionScreen evs)
   \<and> (final_state (mode_show ModeSelectionScreen evs) = Some m \<longrightarrow>
        0 \<le> selected m \<and> selected m < int (length (modes m))
        \<and> py_index (modes m) (selected m) = Inr (modes m ! nat (selected m)))
   \<and> (device_list (DeviceSelectionScreen devs sel) \<noteq> [] \<longrightarrow>
        \<not> has_raised (device_show (DeviceSelectionScreen devs sel) evs')
        \<and> (final_state (device_show (DeviceSelectionScreen devs sel) evs') = Some s \<longrightarrow>
             0 \<le> cursor s \<and> cursor s < int (length (device_list s))
             \<and> py_index (device_list s) (cursor s) = Inr (device_list s ! nat (cursor s))))"
proof (intro conjI impI)
  show "\<not> has_raised (mode_show ModeSelectionScreen evs)"
    by (rule mode_show_no_raise [OF ModeSelectionScreen_in_bounds])
next
  assume "final_state (mode_show ModeSelectionScreen evs) = Some m"
  then have b: "0 \<le> selected m \<and> selected m < int (length (modes m))"
    using mode_show_in_bounds [OF ModeSelectionScreen_in_bounds]
    by (simp add: selected_in_bounds_def)
  from b show "0 \<le> selected m" and "selected m < int (length (modes m))" by simp_all
  from b show "py_index (modes m) (selected m) = Inr (modes m ! nat (selected m))"
    by (rule py_index_bounds_ok)
next
  assume ne: "device_list (DeviceSelectionScreen devs sel) \<noteq> []"
  show "\<not> has_raised (device_show (DeviceSelectionScreen devs sel) evs')"
    by (rule device_show_no_raise [OF DeviceSelectionScreen_inv])
  assume fin: "final_state (device_show (DeviceSelectionScreen devs sel) evs') = Some s"
  have "device_list s \<noteq> [] \<longrightarrow> cursor_in_bounds s" and "device_list s = device_list (DeviceSelectionScreen devs sel)"
    using device_show_invariant [OF DeviceSelectionScreen_inv _ _ fin, of UNIV] by simp_all
  with ne have b: "0 \<le> cursor s \<and> cursor s < int (length (device_list s))"
    by (simp add: cursor_in_bounds_def)
  from b show "0 \<le> cursor s" and "cursor s < int (length (device_list s))" by simp_all
  from b show "py_index (device_list s) (cursor s) = Inr (device_list s ! nat (cursor s))"
    by (rule py_index_bounds_ok)
qed

lemma two_drives_list: "Mapping.ordered_keys two_drives = [''sda'', ''sdb'']"
  by (simp add: two_drives_def one_drive_def)

lemma one_drive_list: "Mapping.ordered_keys one_drive = [''sda'']"
  by (simp add: one_drive_def)

theorem cursor_stays_in_bounds_witness:
  "final_state (mode_show ModeSelectionScreen [press ''down''])
     = Some (ModeSelectionScreen\<lparr>selected := 1\<rparr>)
   \<and> selected (ModeSelectionScreen\<lparr>selected := 1\<rparr>)
       < int (length (modes (ModeSelectionScreen\<lparr>selected := 1\<rparr>)))
   \<and> device_list (DeviceSelectionScreen two_drives []) \<noteq> []
   \<and> final_state (device_show (DeviceSelectionScreen two_drives []) [press ''up''])
       = Some ((DeviceSelectionScreen two_drives [])\<lparr>cursor := 1\<rparr>)
   \<and> cursor ((DeviceSelectionScreen two_drives [])\<lparr>cursor := 1\<rparr>)
       < int (length (device_list ((DeviceSelectionScreen two_drives [])\<lparr>cursor := 1\<rparr>)))"
proof -
  have a: "final_state (mode_show ModeSelectionScreen [press ''down''])
     = Some (ModeSelectionScreen\<lparr>selected := 1\<rparr>)"
    by (simp add: mode_show_def mode_key_def NL_def CR_def py_mod_def ModeSelectionScreen_def)
  have b: "device_list (DeviceSelectionScreen two_drives []) \<noteq> []"
    by (simp add: DeviceSelectionScreen_def two_drives_list)
  have c: "final_state (device_show (DeviceSelectionScreen two_drives []) [press ''up''])
       = Some ((DeviceSelectionScreen two_drives [])\<lparr>cursor := 1\<rparr>)"
    by (simp add: device_show_def device_key_def NL_def CR_def py_mod_def
          DeviceSelectionScreen_def two_drives_list)
  from cursor_stays_in_bounds
         [of "[press ''down'']" "ModeSelectionScreen\<lparr>selected := 1\<rparr>" two_drives "[]"
             "[press ''up'']" "(DeviceSelectionScreen two_drives [])\<lparr>cursor := 1\<rparr>"]
       a b c
  show ?thesis by simp
qed

text \<open>
  C4. Navigation wraps around at the ends of the list. In \<^verbatim>\<open>ModeSelectionScreen.show\<close>, and
  in \<^verbatim>\<open>DeviceSelectionScreen.show\<close> with a device list that is not empty, \<^verbatim>\<open>down\<close> or \<^verbatim>\<open>j\<close>
  at the last index moves the cursor to index 0 and \<^verbatim>\<open>up\<close> or \<^verbatim>\<open>k\<close> at index 0 moves it
  to the last index; anywhere else \<^verbatim>\<open>down\<close> adds one to the cursor and \<^verbatim>\<open>up\<close> takes one
  away. For each of the four keys the statement gives the pass of the loop body (it
  continues, with the cursor moved and nothing else changed), the state in which \<^verbatim>\<open>show\<close>
  waits after reading that key alone, and that the loop goes on from the moved state.
\<close>

theorem navigation_wraps_around:
  "(selected_in_bounds m \<longrightarrow>
      (wait_for_key dn = ''j'' \<or> wait_for_key dn = ''down'' \<longrightarrow>
         mode_key m (wait_for_key dn) =
           Continue (m\<lparr>selected := (if selected m = int (length (modes m)) - 1 then 0
                                     else selected m + 1)\<rparr>)
         \<and> mode_show m [dn] =
           Blocked (m\<lparr>selected := (if selected m = int (length (modes m)) - 1 then 0
                                    else selected m + 1)\<rparr>)
         \<and> mode_show m (dn # evs) =
           mode_show (m\<lparr>selected := (if selected m = int (length (modes m)) - 1 then 0
                                      else selected m + 1)\<rparr>) evs)
      \<and> (wait_for_key up = ''k'' \<or> wait_for_key up = ''up'' \<longrightarrow>
         mode_key m (wait_for_key up) =
           Continue (m\<lparr>selected := (if selected m = 0 then int (length (modes m)) - 1
                                     else selected m - 1)\<rparr>)
         \<and> mode_show m [up] =
           Blocked (m\<lparr>selected := (if selected m = 0 then int (length (modes m)) - 1
                                    else selected m - 1)\<rparr>)
         \<and> mode_show m (up # evs) =
           mode_show (m\<lparr>selected := (if selected m = 0 then int (length (modes m)) - 1
                                      else selected m - 1)\<rparr>) evs))
   \<and> (cursor_in_bounds s \<longrightarrow>
      (wait_for_key dn' = ''j'' \<or> wait_for_key dn' = ''down'' \<longrightarrow>
         device_key s (wait_for_key dn') =
           Continue (s\<lparr>cursor := (if cursor s = int (length (device_list s)) - 1 then 0
                                   else cursor s + 1)\<rparr>)
         \<and> device_show s [dn'] =
           Blocked (s\<lparr>cursor := (if cursor s = int (length (device_list s)) - 1 then 0
                                  else cursor s + 1)\<rparr>)
         \<and> device_show s (dn' # evs') =
           device_show (s\<lparr>cursor := (if cursor s = int (length (device_list s)) - 1 then 0
                                      else cursor s + 1)\<rparr>) evs')
      \<and> (wait_for_key up' = ''k'' \<or> wait_for_key up' = ''up'' \<longrightarrow>
         device_key s (wait_for_key up') =
           Continue (s\<lparr>cursor := (if cursor s = 0 then int (length (device_list s)) - 1
                                   else cursor s - 1)\<rparr>)
         \<and> device_show s [up'] =
           Blocked (s\<lparr>cursor := (if cursor s = 0 then int (length (device_list s)) - 1
                                  else cursor s - 1)\<rparr>)
         \<and> device_show s (up' # evs') =
           device_show (s\<lparr>cursor := (if cursor s = 0 then int (length (device_list s)) - 1
                                      else cursor s - 1)\<rparr>) evs'))"
  using mode_key_down [of m "wait_for_key dn"] mode_key_up [of m "wait_for_key up"]
    device_key_down [of s "wait_for_key dn'"] device_key_up [of s "wait_for_key up'"]
  by (simp add: mode_show_def device_show_def)

theorem navigation_wraps_around_witness:
  "selected_in_bounds (ModeSelectionScreen\<lparr>selected := 1\<rparr>)
   \<and> mode_key (ModeSelectionScreen\<lparr>selected := 1\<rparr>) (wait_for_key (press ''down''))
       = Continue (ModeSelectionScreen\<lparr>selected := 0\<rparr>)
   \<and> mode_show (ModeSelectionScreen\<lparr>selected := 1\<rparr>) [press ''down'']
       = Blocked (ModeSelectionScreen\<lparr>selected := 0\<rparr>)
   \<and> mode_show (ModeSelectionScreen\<lparr>selected := 1\<rparr>) [press ''k'']
       = Blocked (ModeSelectionScreen\<lparr>selected := 0\<rparr>)
   \<and> cursor_in_bounds (DeviceSelectionScreen two_drives [])
   \<and> device_key (DeviceSelectionScreen two_drives []) (wait_for_key (press ''up''))
       = Continue ((DeviceSelectionScreen two_drives [])\<lparr>cursor := 1\<rparr>)
   \<and> device_show (DeviceSelectionScreen two_drives []) [press ''j'']
       = Blocked ((DeviceSelectionScreen two_drives [])\<lparr>cursor := 1\<rparr>)
   \<and> device_show (DeviceSelectionScreen two_drives []) [press ''up'']
       = Blocked ((DeviceSelectionScreen two_drives [])\<lparr>cursor := 1\<rparr>)"
proof -
  have a: "selected_in_bounds (ModeSelectionScreen\<lparr>selected := 1\<rparr>)"
    by (simp add: selected_in_bounds_def ModeSelectionScreen_def)
  have b: "cursor_in_bounds (DeviceSelectionScreen two_drives [])"
    by (simp add: cursor_in_bounds_def DeviceSelectionScreen_def two_drives_list)
  have l: "length (modes ModeSelectionScreen) = 2"
    "length (device_list (DeviceSelectionScreen two_drives [])) = 2"
    "cursor (DeviceSelectionScreen two_drives []) = 0"
    by (simp_all add: ModeSelectionScreen_def DeviceSelectionScreen_def two_drives_list)
  from navigation_wraps_around
         [of "ModeSelectionScreen\<lparr>selected := 1\<rparr>" "press ''down''" "[]" "press ''k''"
             "DeviceSelectionScreen two_drives []" "press ''j''" "[]" "press ''up''"]
       a b l
  show ?thesis by simp
qed

subsection \<open>The selection set and the known devices\<close>

text \<open>
  The constructor stores \<^verbatim>\<open>set(selected_drives)\<close> as it is given, without comparing it with
  the keys of \<^verbatim>\<open>devices\<close>. A screen built for the one drive \<^verbatim>\<open>sda\<close> with \<^verbatim>\<open>sdb\<close> preselected
  keeps \<^verbatim>\<open>sdb\<close> in its selection set, so the selection set is not always a subset of
  the known device identifiers.
\<close>

theorem selection_outside_devices_counterexample:
  "device_show (DeviceSelectionScreen one_drive [''sdb'']) [press ''down'']
     = Blocked (DeviceSelectionScreen one_drive [''sdb''])
   \<and> ''sdb'' |\<in>| selected_drives (DeviceSelectionScreen one_drive [''sdb''])
   \<and> ''sdb'' \<notin> Mapping.keys (devices (DeviceSelectionScreen one_drive [''sdb'']))"
  by (simp add: device_show_def device_key_def NL_def CR_def py_mod_def
        DeviceSelectionScreen_def one_drive_list)
     (simp add: one_drive_def)

text \<open>
  C2, amended. After any sequence of key events the selection set holds only keys of the
  devices mapping and names of the initial \<^verbatim>\<open>selected_drives\<close> list: toggling adds entries
  of the device list only. So for every \<^verbatim>\<open>DeviceSelectionScreen\<close> constructed with an
  initial \<^verbatim>\<open>selected_drives\<close> list whose elements are all keys of the devices mapping, the
  selection set stays a subset of the known device identifiers.
\<close>

theorem selection_within_devices:
  assumes "final_state (device_show (DeviceSelectionScreen devs sel) evs) = Some s"
  shows "devices s = devs
         \<and> fset (selected_drives s) \<subseteq> Mapping.keys (devices s) \<union> set sel
         \<and> (set sel \<subseteq> Mapping.keys devs \<longrightarrow>
              fset (selected_drives s) \<subseteq> Mapping.keys (devices s))"
proof -
  let ?s0 = "DeviceSelectionScreen devs sel"
  have sel0: "fset (selected_drives ?s0) \<subseteq> Mapping.keys devs \<union> set sel"
    by (simp add: DeviceSelectionScreen_def fset_of_list.rep_eq)
  have list0: "set (device_list ?s0) \<subseteq> Mapping.keys devs \<union> set sel"
    using set_ordered_keys_subset [of devs] by (auto simp: DeviceSelectionScreen_def)
  from device_show_invariant [OF DeviceSelectionScreen_inv sel0 list0 assms]
  have "devices s = devices ?s0"
    and "fset (selected_drives s) \<subseteq> Mapping.keys devs \<union> set sel"
    by simp_all
  then show ?thesis
    by (auto simp: DeviceSelectionScreen_def)
qed

theorem selection_within_devices_witness:
  "final_state (device_show (DeviceSelectionScreen two_drives [''sdb'']) [press '' ''])
     = Some ((DeviceSelectionScreen two_drives [''sdb''])\<lparr>selected_drives := {|''sda'', ''sdb''|}\<rparr>)
   \<and> set [''sdb''] \<subseteq> Mapping.keys two_drives
   \<and> fset {|''sda'', ''sdb''|} \<subseteq> Mapping.keys two_drives"
proof -
  have a: "final_state (device_show (DeviceSelectionScreen two_drives [''sdb'']) [press '' ''])
     = Some ((DeviceSelectionScreen two_drives [''sdb''])\<lparr>selected_drives := {|''sda'', ''sdb''|}\<rparr>)"
    by (simp add: device_show_def device_key_def NL_def CR_def py_index_def
          DeviceSelectionScreen_def two_drives_list)
  have b: "set [''sdb''] \<subseteq> Mapping.keys two_drives"
    by (simp add: two_drives_def one_drive_def)
  from selection_within_devices [OF a] a b show ?thesis
    by (simp add: DeviceSelectionScreen_def)
qed

subsection \<open>Toggling the drive under the cursor\<close>

lemma device_reachable_in_bounds:
  assumes "device_list (DeviceSelectionScreen devs sel) \<noteq> []"
    and "final_state (device_show (DeviceSelectionScreen devs sel) evs) = Some s"
  shows "cursor_in_bounds s"
proof -
  have "device_list s \<noteq> [] \<longrightarrow> cursor_in_bounds s"
    and "device_list s = device_list (DeviceSelectionScreen devs sel)"
    using device_show_invariant [OF DeviceSelectionScreen_inv _ _ assms(2), of UNIV]
    by simp_all
  with assms(1) show ?thesis by simp
qed

lemma device_show_space:
  assumes "cursor_in_bounds s"
  shows "device_show s (press '' '' # evs) =
           device_show (s\<lparr>selected_drives :=
             (if device_list s ! nat (cursor s) |\<in>| selected_drives s
              then selected_drives s |-| {|device_list s ! nat (cursor s)|}
              else finsert (device_list s ! nat (cursor s)) (selected_drives s))\<rparr>) evs"
  by (simp add: device_show_def device_key_space [OF assms])

lemma device_show_space_back:
  assumes "cursor_in_bounds s"
  shows "device_show (s\<lparr>selected_drives :=
             (if device_list s ! nat (cursor s) |\<in>| selected_drives s
              then selected_drives s |-| {|device_list s ! nat (cursor s)|}
              else finsert (device_list s ! nat (cursor s)) (selected_drives s))\<rparr>)
           (press '' '' # evs) = device_show s evs"
proof -
  let ?dev = "device_list s ! nat (cursor s)"
  show ?thesis
  proof (cases "?dev |\<in>| selected_drives s")
    case True
    let ?s1 = "s\<lparr>selected_drives := selected_drives s |-| {|?dev|}\<rparr>"
    from assms have b1: "cursor_in_bounds ?s1" by (simp add: cursor_in_bounds_def)
    from True have same: "finsert ?dev (selected_drives s) = selected_drives s"
      by auto
    have "device_show ?s1 (press '' '' # evs) = device_show s evs"
      by (simp add: device_show_space [OF b1] same)
    with True show ?thesis by simp
  next
    case False
    let ?s1 = "s\<lparr>selected_drives := finsert ?dev (selected_drives s)\<rparr>"
    from assms have b1: "cursor_in_bounds ?s1" by (simp add: cursor_in_bounds_def)
    from False have same: "finsert ?dev (selected_drives s) |-| {|?dev|} = selected_drives s"
      by auto
    have "device_show ?s1 (press '' '' # evs) = device_show s evs"
      by (simp add: device_show_space [OF b1] same)
    with False show ?thesis by simp
  qed
qed

lemma device_show_space_twice:
  assumes "cursor_in_bounds s"
  shows "device_show s (press '' '' # press '' '' # evs) = device_show s evs"
  by (simp only: device_show_space [OF assms] device_show_space_back [OF assms])

lemma device_show_Nil: "device_show s [] = Blocked s"
  by (simp add: device_show_def)

text \<open>
  The SPACE key is a toggle, not a switch that stays on: on the one-drive screen with
  nothing selected, one press selects \<^verbatim>\<open>sda\<close> and a second press takes it out again, so
  pressing twice does not give the selection set that pressing once gives.
\<close>

theorem toggle_idempotence_counterexample:
  "map_option selected_drives
     (final_state (device_show (DeviceSelectionScreen one_drive []) [press '' '']))
     = Some {|''sda''|}
   \<and> map_option selected_drives
       (final_state (device_show (DeviceSelectionScreen one_drive []) [press '' '', press '' '']))
     = Some {||}"
  by (simp add: device_show_def device_key_def NL_def CR_def py_index_def
        DeviceSelectionScreen_def one_drive_list)

text \<open>
  C5, amended. In every state of a \<^verbatim>\<open>DeviceSelectionScreen\<close> with a device list that is not
  empty, applying the SPACE toggle twice with the cursor unchanged yields the selection
  set as it was before the first press; it is never the selection set that one press
  yields.
\<close>

theorem toggle_twice_restores:
  assumes "device_list (DeviceSelectionScreen devs sel) \<noteq> []"
    and "final_state (device_show (DeviceSelectionScreen devs sel) evs) = Some s"
  shows "map_option selected_drives (final_state (device_show s [press '' '', press '' '']))
           = Some (selected_drives s)
         \<and> map_option selected_drives (final_state (device_show s [press '' '', press '' '']))
           \<noteq> map_option selected_drives (final_state (device_show s [press '' '']))"
proof -
  from assms have b: "cursor_in_bounds s" by (rule device_reachable_in_bounds)
  have two: "device_show s [press '' '', press '' ''] = Blocked s"
    by (simp only: device_show_space_twice [OF b] device_show_Nil)
  have one: "device_show s [press '' ''] = Blocked (s\<lparr>selected_drives :=
             (if device_list s ! nat (cursor s) |\<in>| selected_drives s
              then selected_drives s |-| {|device_list s ! nat (cursor s)|}
              else finsert (device_list s ! nat (cursor s)) (selected_drives s))\<rparr>)"
    by (simp only: device_show_space [OF b] device_show_Nil)
  have "selected_drives s |-| {|x|} \<noteq> selected_drives s" if "x |\<in>| selected_drives s" for x
    using that by auto
  moreover have "finsert x (selected_drives s) \<noteq> selected_drives s"
    if "x |\<notin>| selected_drives s" for x
    using that by auto
  ultimately show ?thesis
    unfolding two one by auto
qed

theorem toggle_twice_restores_witness:
  "device_list (DeviceSelectionScreen two_drives [''sdb'']) \<noteq> []
   \<and> final_state (device_show (DeviceSelectionScreen two_drives [''sdb'']) [press ''j''])
       = Some ((DeviceSelectionScreen two_drives [''sdb''])\<lparr>cursor := 1\<rparr>)
   \<and> map_option selected_drives (final_state (device_show
         ((DeviceSelectionScreen two_drives [''sdb''])\<lparr>cursor := 1\<rparr>)
         [press '' '', press '' ''])) = Some {|''sdb''|}
   \<and> map_option selected_drives (final_state (device_show
         ((DeviceSelectionScreen two_drives [''sdb''])\<lparr>cursor := 1\<rparr>)
         [press '' ''])) = Some {||}"
proof -
  have a: "device_list (DeviceSelectionScreen two_drives [''sdb'']) \<noteq> []"
    by (simp add: DeviceSelectionScreen_def two_drives_list)
  have b: "final_state (device_show (DeviceSelectionScreen two_drives [''sdb'']) [press ''j''])
       = Some ((DeviceSelectionScreen two_drives [''sdb''])\<lparr>cursor := 1\<rparr>)"
    by (simp add: device_show_def device_key_def NL_def CR_def py_mod_def
          DeviceSelectionScreen_def two_drives_list)
  have c: "map_option selected_drives (final_state (device_show
         ((DeviceSelectionScreen two_drives [''sdb''])\<lparr>cursor := 1\<rparr>)
         [press '' ''])) = Some {||}"
    by (simp add: device_show_def device_key_def NL_def CR_def py_index_def
          DeviceSelectionScreen_def two_drives_list)
  from toggle_twice_restores [OF a b] a b c show ?thesis
    by (simp add: DeviceSelectionScreen_def)
qed

text \<open>
  C8. The SPACE toggle is an involution. In every state of a \<^verbatim>\<open>DeviceSelectionScreen\<close> with
  a device list that is not empty, one press flips the membership of the device under
  the cursor in the selection set (it is added if absent and removed if present), leaves
  every other device and the cursor as they were, and a second press brings the screen
  back to exactly the state before the first.
\<close>

theorem toggle_involution:
  assumes "device_list (DeviceSelectionScreen devs sel) \<noteq> []"
    and "final_state (device_show (DeviceSelectionScreen devs sel) evs) = Some s"
  shows "(let dev = device_list s ! nat (cursor s);
              s1 = s\<lparr>selected_drives :=
                      (if dev |\<in>| selected_drives s then selected_drives s |-| {|dev|}
                       else finsert dev (selected_drives s))\<rparr>
          in py_index (device_list s) (cursor s) = Inr dev
             \<and> device_show s [press '' ''] = Blocked s1
             \<and> (dev |\<in>| selected_drives s1) = (dev |\<notin>| selected_drives s)
             \<and> selected_drives s1 |-| {|dev|} = selected_drives s |-| {|dev|}
             \<and> cursor s1 = cursor s
             \<and> device_show s1 [press '' ''] = Blocked s
             \<and> device_show s [press '' '', press '' ''] = Blocked s)"
proof -
  from assms have b: "cursor_in_bounds s" by (rule device_reachable_in_bounds)
  then have i: "py_index (device_list s) (cursor s) = Inr (device_list s ! nat (cursor s))"
    by (simp add: cursor_in_bounds_def py_index_in_bounds)
  have two: "device_show s [press '' '', press '' ''] = Blocked s"
    by (simp only: device_show_space_twice [OF b] device_show_Nil)
  have one: "device_show s [press '' ''] = Blocked (s\<lparr>selected_drives :=
             (if device_list s ! nat (cursor s) |\<in>| selected_drives s
              then selected_drives s |-| {|device_list s ! nat (cursor s)|}
              else finsert (device_list s ! nat (cursor s)) (selected_drives s))\<rparr>)"
    by (simp only: device_show_space [OF b] device_show_Nil)
  have again: "device_show (s\<lparr>selected_drives :=
             (if device_list s ! nat (cursor s) |\<in>| selected_drives s
              then selected_drives s |-| {|device_list s ! nat (cursor s)|}
              else finsert (device_list s ! nat (cursor s)) (selected_drives s))\<rparr>)
             [press '' ''] = Blocked s"
    by (simp only: device_show_space_back [OF b] device_show_Nil)
  show ?thesis
    unfolding Let_def
    using i one two again by auto
qed

theorem toggle_involution_witness:
  "device_list (DeviceSelectionScreen two_drives [''sdb'']) \<noteq> []
   \<and> final_state (device_show (DeviceSelectionScreen two_drives [''sdb'']) [press ''j''])
       = Some ((DeviceSelectionScreen two_drives [''sdb''])\<lparr>cursor := 1\<rparr>)
   \<and> device_show ((DeviceSelectionScreen two_drives [''sdb''])\<lparr>cursor := 1\<rparr>) [press '' '']
       = Blocked ((DeviceSelectionScreen two_drives [])\<lparr>cursor := 1\<rparr>)
   \<and> device_show ((DeviceSelectionScreen two_drives [''sdb''])\<lparr>cursor := 1\<rparr>)
         [press '' '', press '' '']
       = Blocked ((DeviceSelectionScreen two_drives [''sdb''])\<lparr>cursor := 1\<rparr>)"
proof -
  have a: "device_list (DeviceSelectionScreen two_drives [''sdb'']) \<noteq> []"
    by (simp add: DeviceSelectionScreen_def two_drives_list)
  have b: "final_state (device_show (DeviceSelectionScreen two_drives [''sdb'']) [press ''j''])
       = Some ((DeviceSelectionScreen two_drives [''sdb''])\<lparr>cursor := 1\<rparr>)"
    by (simp add: device_show_def device_key_def NL_def CR_def py_mod_def
          DeviceSelectionScreen_def two_drives_list)
  from toggle_involution [OF a b] a b show ?thesis
    by (simp add: Let_def DeviceSelectionScreen_def two_drives_list)
qed

subsection \<open>What a key loop returns, and on which key\<close>

lemma returned_value_Some:
  "returned_value out = Some r \<longleftrightarrow> (\<exists>s rest. out = Returned r s rest)"
  by (cases out) auto

lemma device_show_Returned:
  assumes "device_show s evs = Returned r s' rest"
  shows "r = Str ''back'' \<or> r = Str ''quit'' \<or>
         (r = Drives (selected_drives s') \<and> selected_drives s' \<noteq> {||})"
proof -
  from assms have run: "key_loop device_key s evs = Returned r s' rest"
    by (simp add: device_show_def)
  show ?thesis
    using key_loop_returned_value
      [where P = "\<lambda>_. True" and h = device_key
         and Q = "\<lambda>t r. r = Str ''back'' \<or> r = Str ''quit'' \<or>
                        (r = Drives (selected_drives t) \<and> selected_drives t \<noteq> {||})"
         and s = s and evs = evs and r = r and s' = s' and rest = rest]
      device_key_Return run
    by blast
qed

lemma empty_screen_list: "device_list (DeviceSelectionScreen Mapping.empty sel) = []"
  by (simp add: DeviceSelectionScreen_def)

lemma fset_of_list_empty_iff: "fset_of_list sel = {||} \<longleftrightarrow> sel = []"
  by (cases sel) simp_all

lemma screen_selection: "selected_drives (DeviceSelectionScreen devs sel) = fset_of_list sel"
  by (simp add: DeviceSelectionScreen_def)

lemma empty_screen_fixed:
  assumes "final_state (device_show (DeviceSelectionScreen Mapping.empty sel) evs) = Some s"
  shows "s = DeviceSelectionScreen Mapping.empty sel"
  using device_show_invariant [OF DeviceSelectionScreen_inv _ _ assms, of UNIV]
    empty_screen_list [of sel]
  by simp

lemma key_loop_returned_last:
  "key_loop h s evs = Returned r s' rest \<Longrightarrow>
     \<exists>pre ev. evs = pre @ ev # rest \<and> h s' (wait_for_key ev) = Return r"
proof (induction evs arbitrary: s)
  case Nil
  then show ?case by simp
next
  case (Cons e evs)
  show ?case
  proof (cases "h s (wait_for_key e)")
    case (Return v)
    with Cons.prems have "v = r" "s' = s" "rest = evs" by simp_all
    with Return have "e # evs = [] @ e # rest \<and> h s' (wait_for_key e) = Return r" by simp
    then show ?thesis by blast
  next
    case (Continue t)
    with Cons.prems have "key_loop h t evs = Returned r s' rest" by simp
    from Cons.IH [OF this] obtain pre ev
      where "evs = pre @ ev # rest" "h s' (wait_for_key ev) = Return r" by blast
    then have "e # evs = (e # pre) @ ev # rest \<and> h s' (wait_for_key ev) = Return r" by simp
    then show ?thesis by blast
  next
    case (Raise x)
    with Cons.prems show ?thesis by simp
  qed
qed

lemma char_of_81: "char_of (81::nat) = CHR ''Q''"
  by code_simp

lemma char_lower_Q: "char_lower (CHR ''Q'') = CHR ''q''"
  by code_simp

lemma char_lower_q: "char_lower c = CHR ''q'' \<longleftrightarrow> c = CHR ''q'' \<or> c = CHR ''Q''"
proof (cases "CHR ''A'' \<le> c \<and> c \<le> CHR ''Z''")
  case False
  then show ?thesis by (auto simp: char_lower_def)
next
  case True
  then have r: "65 \<le> (of_char c :: nat)" "(of_char c :: nat) \<le> 90"
    by (simp_all add: less_eq_char_def)
  from True have nq: "c \<noteq> CHR ''q''" by auto
  show ?thesis
  proof
    assume "char_lower c = CHR ''q''"
    with True have "char_of (of_char c + (32::nat)) = CHR ''q''"
      by (simp add: char_lower_def)
    then have "(of_char (char_of (of_char c + (32::nat)) :: char) :: nat) = of_char (CHR ''q'')"
      by (rule arg_cong)
    with r have "of_char c = (81::nat)" by (simp add: of_char_of)
    then have "char_of (of_char c :: nat) = (char_of (81::nat) :: char)" by (rule arg_cong)
    then have "c = CHR ''Q''" by (simp add: char_of_81)
    then show "c = CHR ''q'' \<or> c = CHR ''Q''" ..
  next
    assume "c = CHR ''q'' \<or> c = CHR ''Q''"
    with nq have "c = CHR ''Q''" by blast
    then show "char_lower c = CHR ''q''" by (simp only: char_lower_Q)
  qed
qed

lemma lower_q_iff: "lower k = ''q'' \<longleftrightarrow> k = ''q'' \<or> k = ''Q''"
  by (cases k) (auto simp: lower_def char_lower_q)

lemma device_key_nav_not_Return:
  assumes "k = '' '' \<or> k = ''j'' \<or> k = ''down'' \<or> k = ''k'' \<or> k = ''up''"
  shows "device_key s k \<noteq> Return r"
  using assms
  by (auto simp: device_key_def NL_def CR_def split: sum.splits)

lemma device_key_Return_key:
  assumes "device_key s k = Return r"
  shows "(r = Str ''back'' \<and> k = ''escape'')
         \<or> (r = Str ''quit'' \<and> (k = ''q'' \<or> k = ''Q''))
         \<or> (r = Drives (selected_drives s) \<and> selected_drives s \<noteq> {||} \<and> (k = NL \<or> k = CR))"
proof (cases k rule: key_cases)
  case enter
  with assms show ?thesis by (auto simp: device_key_enter split: if_splits)
next
  case space
  with assms device_key_nav_not_Return [of k s r] show ?thesis by simp
next
  case down
  with assms device_key_nav_not_Return [of k s r] show ?thesis by blast
next
  case up
  with assms device_key_nav_not_Return [of k s r] show ?thesis by blast
next
  case other
  from assms show ?thesis
    unfolding device_key_other [OF other]
    by (auto simp: lower_q_iff split: if_splits)
qed

lemma device_show_Returned_key:
  assumes "device_show s evs = Returned r s' rest"
  shows "\<exists>pre ev. evs = pre @ ev # rest \<and>
           ((r = Str ''back'' \<and> wait_for_key ev = ''escape'')
            \<or> (r = Str ''quit'' \<and> (wait_for_key ev = ''q'' \<or> wait_for_key ev = ''Q''))
            \<or> (r = Drives (selected_drives s') \<and> selected_drives s' \<noteq> {||}
                \<and> (wait_for_key ev = NL \<or> wait_for_key ev = CR)))"
proof -
  from assms have "key_loop device_key s evs = Returned r s' rest"
    by (simp add: device_show_def)
  from key_loop_returned_last [OF this] obtain pre ev
    where "evs = pre @ ev # rest" "device_key s' (wait_for_key ev) = Return r" by blast
  with device_key_Return_key [of s' "wait_for_key ev" r] show ?thesis by blast
qed

subsection \<open>A screen without devices\<close>

text \<open>
  With no devices at all the ENTER key still returns the selected drives when the
  constructor was given a selection that is not empty: the guard before the return looks
  at the selection set, not at the device list.
\<close>

theorem empty_devices_enter_counterexample:
  "device_show (DeviceSelectionScreen Mapping.empty [''sda'']) [press NL]
     = Returned (Drives {|''sda''|}) (DeviceSelectionScreen Mapping.empty [''sda'']) []"
  by (simp add: device_show_def device_key_def DeviceSelectionScreen_def)

text \<open>
  C10, amended. When \<^verbatim>\<open>DeviceSelectionScreen\<close> is constructed with an empty devices mapping,
  SPACE, \<^verbatim>\<open>down\<close>/\<^verbatim>\<open>j\<close> and \<^verbatim>\<open>up\<close>/\<^verbatim>\<open>k\<close> leave the state as it is and do not end \<^verbatim>\<open>show\<close>; no
  key makes \<^verbatim>\<open>show\<close> raise, so the empty list is never indexed, and the state never
  changes at all. ENTER ends \<^verbatim>\<open>show\<close> with the drives of the initial \<^verbatim>\<open>selected_drives\<close>
  list exactly when that list is not empty. So \<^verbatim>\<open>show\<close> returns \<^verbatim>\<open>"back"\<close> only on escape,
  \<^verbatim>\<open>"quit"\<close> only on \<^verbatim>\<open>q\<close> or \<^verbatim>\<open>Q\<close>, and a list of drives only on ENTER and only if the
  initial selection was not empty.
\<close>

theorem empty_devices_screen:
  "(wait_for_key ev = '' '' \<or> wait_for_key ev = ''j'' \<or> wait_for_key ev = ''down''
      \<or> wait_for_key ev = ''k'' \<or> wait_for_key ev = ''up'' \<longrightarrow>
      device_show (DeviceSelectionScreen Mapping.empty sel) (ev # evs)
        = device_show (DeviceSelectionScreen Mapping.empty sel) evs)
   \<and> (wait_for_key ev' = NL \<or> wait_for_key ev' = CR \<longrightarrow>
      device_show (DeviceSelectionScreen Mapping.empty sel) (ev' # evs)
        = (if sel = [] then device_show (DeviceSelectionScreen Mapping.empty sel) evs
           else Returned (Drives (fset_of_list sel))
                  (DeviceSelectionScreen Mapping.empty sel) evs))
   \<and> \<not> has_raised (device_show (DeviceSelectionScreen Mapping.empty sel) evs')
   \<and> (final_state (device_show (DeviceSelectionScreen Mapping.empty sel) evs') = Some s \<longrightarrow>
        s = DeviceSelectionScreen Mapping.empty sel)
   \<and> (device_show (DeviceSelectionScreen Mapping.empty sel) evs' = Returned r t rest \<longrightarrow>
        (\<exists>pre last. evs' = pre @ last # rest \<and>
           ((r = Str ''back'' \<and> wait_for_key last = ''escape'')
            \<or> (r = Str ''quit'' \<and> (wait_for_key last = ''q'' \<or> wait_for_key last = ''Q''))
            \<or> (sel \<noteq> [] \<and> r = Drives (fset_of_list sel)
                \<and> (wait_for_key last = NL \<or> wait_for_key last = CR)))))"
proof (intro conjI impI)
  let ?s0 = "DeviceSelectionScreen Mapping.empty sel"
  assume "wait_for_key ev = '' '' \<or> wait_for_key ev = ''j'' \<or> wait_for_key ev = ''down''
      \<or> wait_for_key ev = ''k'' \<or> wait_for_key ev = ''up''"
  then have "device_key ?s0 (wait_for_key ev) = Continue ?s0"
    by (rule device_key_empty_list [OF empty_screen_list])
  then show "device_show ?s0 (ev # evs) = device_show ?s0 evs"
    by (simp add: device_show_def)
next
  let ?s0 = "DeviceSelectionScreen Mapping.empty sel"
  assume "wait_for_key ev' = NL \<or> wait_for_key ev' = CR"
  from device_show_enter [OF this, of ?s0 evs]
  show "device_show ?s0 (ev' # evs)
        = (if sel = [] then device_show ?s0 evs
           else Returned (Drives (fset_of_list sel)) ?s0 evs)"
    by (simp add: screen_selection fset_of_list_empty_iff)
next
  show "\<not> has_raised (device_show (DeviceSelectionScreen Mapping.empty sel) evs')"
    by (rule device_show_no_raise [OF DeviceSelectionScreen_inv])
next
  assume "final_state (device_show (DeviceSelectionScreen Mapping.empty sel) evs') = Some s"
  then show "s = DeviceSelectionScreen Mapping.empty sel"
    by (rule empty_screen_fixed)
next
  let ?s0 = "DeviceSelectionScreen Mapping.empty sel"
  assume run: "device_show ?s0 evs' = Returned r t rest"
  then have "final_state (device_show ?s0 evs') = Some t" by simp
  then have t: "t = ?s0" by (rule empty_screen_fixed)
  from device_show_Returned_key [OF run] obtain pre last
    where split: "evs' = pre @ last # rest"
      and key: "(r = Str ''back'' \<and> wait_for_key last = ''escape'')
            \<or> (r = Str ''quit'' \<and> (wait_for_key last = ''q'' \<or> wait_for_key last = ''Q''))
            \<or> (r = Drives (selected_drives t) \<and> selected_drives t \<noteq> {||}
                \<and> (wait_for_key last = NL \<or> wait_for_key last = CR))"
    by blast
  from key t have "(r = Str ''back'' \<and> wait_for_key last = ''escape'')
            \<or> (r = Str ''quit'' \<and> (wait_for_key last = ''q'' \<or> wait_for_key last = ''Q''))
            \<or> (sel \<noteq> [] \<and> r = Drives (fset_of_list sel)
                \<and> (wait_for_key last = NL \<or> wait_for_key last = CR))"
    by (auto simp: screen_selection fset_of_list_empty_iff)
  with split show "\<exists>pre last. evs' = pre @ last # rest \<and>
           ((r = Str ''back'' \<and> wait_for_key last = ''escape'')
            \<or> (r = Str ''quit'' \<and> (wait_for_key last = ''q'' \<or> wait_for_key last = ''Q''))
            \<or> (sel \<noteq> [] \<and> r = Drives (fset_of_list sel)
                \<and> (wait_for_key last = NL \<or> wait_for_key last = CR)))"
    by blast
qed

theorem empty_devices_screen_witness:
  "device_show (DeviceSelectionScreen Mapping.empty []) [press ''down'', press NL, press ''escape'']
     = device_show (DeviceSelectionScreen Mapping.empty []) [press NL, press ''escape'']
   \<and> device_show (DeviceSelectionScreen Mapping.empty []) [press NL, press ''escape'']
     = device_show (DeviceSelectionScreen Mapping.empty []) [press ''escape'']
   \<and> final_state (device_show (DeviceSelectionScreen Mapping.empty []) [press ''escape''])
     = Some (DeviceSelectionScreen Mapping.empty [])
   \<and> device_show (DeviceSelectionScreen Mapping.empty []) [press ''escape'']
     = Returned (Str ''back'') (DeviceSelectionScreen Mapping.empty []) []"
proof -
  have a: "device_show (DeviceSelectionScreen Mapping.empty []) [press ''escape'']
     = Returned (Str ''back'') (DeviceSelectionScreen Mapping.empty []) []"
    by (simp add: device_show_def device_key_def NL_def CR_def)
  from empty_devices_screen
         [of "press ''down''" "[]" "[press NL, press ''escape'']" "press NL"
             "[press ''escape'']" "DeviceSelectionScreen Mapping.empty []" "Str ''back''"
             "DeviceSelectionScreen Mapping.empty []" "[]"]
       a
       empty_devices_screen
         [of "press ''down''" "[]" "[press ''escape'']" "press NL"
             "[press ''escape'']" "DeviceSelectionScreen Mapping.empty []" "Str ''back''"
             "DeviceSelectionScreen Mapping.empty []" "[]"]
  show ?thesis by simp
qed

subsection \<open>The values every screen hands to its caller\<close>

lemma welcome_key_Return:
  "welcome_key s k = Return r \<Longrightarrow> r = Str ''next'' \<or> r = Str ''quit''"
  by (simp add: welcome_key_def split: if_splits)

lemma settings_key_Return:
  "settings_key s k = Return r \<Longrightarrow> r = Str ''next'' \<or> r = Str ''back'' \<or> r = Str ''quit''"
  by (simp add: settings_key_def split: if_splits)

lemma validation_key_Return:
  "validation_key s k = Return r \<Longrightarrow> r = Str ''valid'' \<or> r = Str ''back'' \<or> r = Str ''quit''"
  by (simp add: validation_key_def split: if_splits)

lemma confirmation_key_Return:
  "confirmation_key s k = Return r \<Longrightarrow>
     r = Str ''proceed'' \<or> r = Str ''back'' \<or> r = Str ''quit''"
  by (simp add: confirmation_key_def split: if_splits)

lemma mode_key_Return:
  assumes inv: "selected_in_bounds s" and m: "modes s = modes ModeSelectionScreen"
    and r: "mode_key s k = Return r"
  shows "r = Str ''new'' \<or> r = Str ''existing'' \<or> r = Str ''back'' \<or> r = Str ''quit''"
proof (cases k rule: key_cases)
  case enter
  from inv m have b: "0 \<le> selected s" "selected s < 2"
    by (simp_all add: selected_in_bounds_def ModeSelectionScreen_def)
  then have "selected s = 0 \<or> selected s = 1" by linarith
  then have "fst (modes s ! nat (selected s)) = ''new''
             \<or> fst (modes s ! nat (selected s)) = ''existing''"
    using m by (auto simp: ModeSelectionScreen_def)
  moreover from inv have "py_index (modes s) (selected s) = Inr (modes s ! nat (selected s))"
    by (simp add: selected_in_bounds_def py_index_in_bounds)
  ultimately show ?thesis
    using r mode_key_enter [OF enter, of s] by auto
next
  case space
  with r show ?thesis by (simp add: mode_key_space)
next
  case down
  from r show ?thesis unfolding mode_key_down [OF inv down] by simp
next
  case up
  from r show ?thesis unfolding mode_key_up [OF inv up] by simp
next
  case other
  from r show ?thesis
    unfolding mode_key_other [OF other(1,2,4-7)]
    by (simp split: if_splits)
qed

lemma lower_q: "lower ''q'' = ''q''"
  by (simp add: lower_q_iff)

lemma q_not_special:
  "''q'' \<noteq> NL" "''q'' \<noteq> CR" "''q'' \<noteq> '' ''" "''q'' \<noteq> ''j''" "''q'' \<noteq> ''down''"
  "''q'' \<noteq> ''k''" "''q'' \<noteq> ''up''" "''q'' \<noteq> ''escape''"
  by (simp_all add: NL_def CR_def)

lemma lower_q_not_yn: "lower ''q'' \<noteq> ''y''" "lower ''q'' \<noteq> ''n''"
  by (simp_all add: lower_q)

lemma welcome_key_q: "welcome_key s ''q'' = Return (Str ''quit'')"
  by (simp add: welcome_key_def q_not_special lower_q)

lemma settings_key_q: "settings_key s ''q'' = Return (Str ''quit'')"
  by (simp add: settings_key_def q_not_special lower_q)

lemma validation_key_q: "validation_key s ''q'' = Return (Str ''quit'')"
  by (simp add: validation_key_def q_not_special lower_q)

lemma confirmation_key_q: "confirmation_key s ''q'' = Return (Str ''quit'')"
  by (simp add: confirmation_key_def q_not_special lower_q lower_q_not_yn)

lemma mode_key_q: "mode_key s ''q'' = Return (Str ''quit'')"
  by (simp add: mode_key_other q_not_special lower_q)

lemma device_key_q: "device_key s ''q'' = Return (Str ''quit'')"
  by (simp add: device_key_other q_not_special lower_q)

lemma plain_loop_value:
  assumes ret: "\<And>s k r. h s k = Return r \<Longrightarrow> Q r"
    and val: "returned_value (key_loop h s evs) = Some r"
  shows "Q r"
proof -
  from val obtain s' rest where "key_loop h s evs = Returned r s' rest"
    by (auto simp: returned_value_Some)
  then show ?thesis
    using key_loop_returned_value [where P = "\<lambda>_. True" and h = h and Q = "\<lambda>_. Q"
            and s = s and evs = evs and r = r and s' = s' and rest = rest] ret
    by blast
qed

lemma plain_loop_quits:
  assumes safe: "\<And>s k e. h s k \<noteq> Raise e"
    and quit: "\<And>s. h s ''q'' = Return (Str ''quit'')"
    and q: "''q'' \<in> wait_for_key ` set evs"
  shows "returned_value (key_loop h s evs) \<noteq> None"
  using key_loop_returns [where P = "\<lambda>_. True" and h = h and q = "''q''" and s = s
          and evs = evs] safe quit q
  by blast

lemma welcome_key_no_Raise: "welcome_key s k \<noteq> Raise e"
  by (simp add: welcome_key_def)

lemma settings_key_no_Raise: "settings_key s k \<noteq> Raise e"
  by (simp add: settings_key_def)

lemma validation_key_no_Raise: "validation_key s k \<noteq> Raise e"
  by (simp add: validation_key_def)

lemma confirmation_key_no_Raise: "confirmation_key s k \<noteq> Raise e"
  by (simp add: confirmation_key_def)

lemma mode_show_value:
  assumes "returned_value (mode_show ModeSelectionScreen evs) = Some r"
  shows "r = Str ''new'' \<or> r = Str ''existing'' \<or> r = Str ''back'' \<or> r = Str ''quit''"
proof -
  let ?P = "\<lambda>t. selected_in_bounds t \<and> modes t = modes ModeSelectionScreen"
  from assms obtain s' rest
    where run: "key_loop mode_key ModeSelectionScreen evs = Returned r s' rest"
    by (auto simp: returned_value_Some mode_show_def)
  have step: "?P t'" if "?P t" "mode_key t k = Continue t'" for t k t'
    using mode_key_Continue [of t k t'] that by simp
  have ret: "r = Str ''new'' \<or> r = Str ''existing'' \<or> r = Str ''back'' \<or> r = Str ''quit''"
    if "?P t" "mode_key t k = Return r" for t k r
    using mode_key_Return [of t k r] that by simp
  have init: "?P ModeSelectionScreen"
    by (simp add: ModeSelectionScreen_in_bounds)
  show ?thesis
    using key_loop_returned_value [where P = ?P and h = mode_key
            and Q = "\<lambda>_ r. r = Str ''new'' \<or> r = Str ''existing'' \<or> r = Str ''back''
                          \<or> r = Str ''quit''"
            and s = ModeSelectionScreen and evs = evs and r = r and s' = s' and rest = rest]
      step ret init run
    by blast
qed

lemma mode_show_quits:
  assumes "''q'' \<in> wait_for_key ` set evs"
  shows "returned_value (mode_show ModeSelectionScreen evs) \<noteq> None"
proof -
  have "returned_value (key_loop mode_key ModeSelectionScreen evs) \<noteq> None"
    using ModeSelectionScreen_in_bounds assms
    by (rule key_loop_returns [where P = selected_in_bounds, rotated 3])
       (simp_all add: mode_key_Continue mode_key_no_Raise mode_key_q)
  then show ?thesis by (simp add: mode_show_def)
qed

lemma device_show_quits:
  assumes "''q'' \<in> wait_for_key ` set evs"
  shows "returned_value (device_show (DeviceSelectionScreen devs sel) evs) \<noteq> None"
proof -
  let ?P = "\<lambda>t. device_list t \<noteq> [] \<longrightarrow> cursor_in_bounds t"
  have step: "?P t'" if "?P t" "device_key t k = Continue t'" for t k t'
    using device_key_Continue [of t k t'] that by blast
  have safe: "device_key t k \<noteq> Raise e" if "?P t" for t k e
    using that by (rule device_key_no_Raise)
  have "returned_value (key_loop device_key (DeviceSelectionScreen devs sel) evs) \<noteq> None"
    using key_loop_returns [where P = ?P and h = device_key and q = "''q''"
            and s = "DeviceSelectionScreen devs sel" and evs = evs]
      step safe device_key_q DeviceSelectionScreen_inv [of devs sel] assms
    by blast
  then show ?thesis by (simp add: device_show_def)
qed

lemma device_show_value:
  assumes "returned_value (device_show s evs) = Some r"
  shows "r = Str ''back'' \<or> r = Str ''quit'' \<or> (\<exists>d. r = Drives d \<and> d \<noteq> {||})"
proof -
  from assms obtain s' rest where "device_show s evs = Returned r s' rest"
    by (auto simp: returned_value_Some)
  from device_show_Returned [OF this] show ?thesis by blast
qed

lemma completion_show_value:
  "returned_value (completion_show s evs) = Some r \<Longrightarrow> r = Str ''quit''"
  by (cases evs) simp_all

lemma completion_show_returns:
  "evs \<noteq> [] \<Longrightarrow> returned_value (completion_show s evs) = Some (Str ''quit'')"
  by (cases evs) simp_all

text \<open>
  \<^verbatim>\<open>DeviceSelectionScreen.show\<close> is annotated \<^verbatim>\<open>-> Any\<close>: after SPACE has selected \<^verbatim>\<open>sda\<close>, ENTER
  returns \<^verbatim>\<open>list(self.selected_drives)\<close>, which is a list and not a string.
\<close>

theorem device_show_returns_list_counterexample:
  "returned_value (device_show (DeviceSelectionScreen one_drive []) [press '' '', press NL])
     = Some (Drives {|''sda''|})
   \<and> \<not> is_str (Drives {|''sda''|})"
  by (simp add: device_show_def device_key_def NL_def CR_def py_index_def
        DeviceSelectionScreen_def one_drive_list)

text \<open>
  C6, amended. Every screen's \<^verbatim>\<open>show\<close> other than \<^verbatim>\<open>DeviceSelectionScreen\<close>'s returns a string,
  whatever the key events: \<^verbatim>\<open>WelcomeScreen\<close> \<^verbatim>\<open>"next"\<close> or \<^verbatim>\<open>"quit"\<close>; \<^verbatim>\<open>ModeSelectionScreen\<close>
  \<^verbatim>\<open>"new"\<close>, \<^verbatim>\<open>"existing"\<close>, \<^verbatim>\<open>"back"\<close> or \<^verbatim>\<open>"quit"\<close>; \<^verbatim>\<open>SettingsScreen\<close> \<^verbatim>\<open>"next"\<close>, \<^verbatim>\<open>"back"\<close> or
  \<^verbatim>\<open>"quit"\<close>; \<^verbatim>\<open>ValidationScreen\<close> \<^verbatim>\<open>"valid"\<close>, \<^verbatim>\<open>"back"\<close> or \<^verbatim>\<open>"quit"\<close>; \<^verbatim>\<open>ConfirmationScreen\<close>
  \<^verbatim>\<open>"proceed"\<close>, \<^verbatim>\<open>"back"\<close> or \<^verbatim>\<open>"quit"\<close>; \<^verbatim>\<open>InstallationScreen\<close> always \<^verbatim>\<open>"success"\<close>;
  \<^verbatim>\<open>CompletionScreen\<close> \<^verbatim>\<open>"quit"\<close>. \<^verbatim>\<open>DeviceSelectionScreen.show\<close> returns the string \<^verbatim>\<open>"back"\<close> or
  \<^verbatim>\<open>"quit"\<close>, or the list of selected drives, which is then not empty. Each of them does
  return once a \<^verbatim>\<open>q\<close> key press is among the events (\<^verbatim>\<open>InstallationScreen\<close> without any).
\<close>

theorem show_return_values:
  "(returned_value (welcome_show w evs) = Some r \<longrightarrow> r = Str ''next'' \<or> r = Str ''quit'')
   \<and> (returned_value (mode_show ModeSelectionScreen evs) = Some r \<longrightarrow>
        r = Str ''new'' \<or> r = Str ''existing'' \<or> r = Str ''back'' \<or> r = Str ''quit'')
   \<and> (returned_value (device_show (DeviceSelectionScreen devs sel) evs) = Some r \<longrightarrow>
        r = Str ''back'' \<or> r = Str ''quit'' \<or> (\<exists>d. r = Drives d \<and> d \<noteq> {||}))
   \<and> (returned_value (settings_show st evs) = Some r \<longrightarrow>
        r = Str ''next'' \<or> r = Str ''back'' \<or> r = Str ''quit'')
   \<and> (returned_value (validation_show sv evs) = Some r \<longrightarrow>
        r = Str ''valid'' \<or> r = Str ''back'' \<or> r = Str ''quit'')
   \<and> (returned_value (confirmation_show sc evs) = Some r \<longrightarrow>
        r = Str ''proceed'' \<or> r = Str ''back'' \<or> r = Str ''quit'')
   \<and> returned_value (snd (installation_show si evs)) = Some (Str ''success'')
   \<and> (returned_value (completion_show sf evs) = Some r \<longrightarrow> r = Str ''quit'')
   \<and> (''q'' \<in> wait_for_key ` set evs \<longrightarrow>
        returned_value (welcome_show w evs) \<noteq> None
        \<and> returned_value (mode_show ModeSelectionScreen evs) \<noteq> None
        \<and> returned_value (device_show (DeviceSelectionScreen devs sel) evs) \<noteq> None
        \<and> returned_value (settings_show st evs) \<noteq> None
        \<and> returned_value (validation_show sv evs) \<noteq> None
        \<and> returned_value (confirmation_show sc evs) \<noteq> None
        \<and> returned_value (completion_show sf evs) \<noteq> None)"
proof -
  have val_welcome: "returned_value (welcome_show w evs) = Some r \<longrightarrow>
                   r = Str ''next'' \<or> r = Str ''quit''"
    unfolding welcome_show_def
    using plain_loop_value [where h = welcome_key and s = w and evs = evs and r = r
            and Q = "\<lambda>r. r = Str ''next'' \<or> r = Str ''quit''"] welcome_key_Return
    by blast
  have val_settings: "returned_value (settings_show st evs) = Some r \<longrightarrow>
                    r = Str ''next'' \<or> r = Str ''back'' \<or> r = Str ''quit''"
    unfolding settings_show_def
    using plain_loop_value [where h = settings_key and s = st and evs = evs and r = r
            and Q = "\<lambda>r. r = Str ''next'' \<or> r = Str ''back'' \<or> r = Str ''quit''"]
      settings_key_Return
    by blast
  have val_validation: "returned_value (validation_show sv evs) = Some r \<longrightarrow>
                    r = Str ''valid'' \<or> r = Str ''back'' \<or> r = Str ''quit''"
    unfolding validation_show_def
    using plain_loop_value [where h = validation_key and s = sv and evs = evs and r = r
            and Q = "\<lambda>r. r = Str ''valid'' \<or> r = Str ''back'' \<or> r = Str ''quit''"]
      validation_key_Return
    by blast
  have val_confirmation: "returned_value (confirmation_show sc evs) = Some r \<longrightarrow>
                    r = Str ''proceed'' \<or> r = Str ''back'' \<or> r = Str ''quit''"
    unfolding confirmation_show_def
    using plain_loop_value [where h = confirmation_key and s = sc and evs = evs and r = r
            and Q = "\<lambda>r. r = Str ''proceed'' \<or> r = Str ''back'' \<or> r = Str ''quit''"]
      confirmation_key_Return
    by blast
  have val_installation: "returned_value (snd (installation_show si evs)) = Some (Str ''success'')"
    by (simp add: installation_show_def)
  have quits: "returned_value (welcome_show w evs) \<noteq> None
        \<and> returned_value (mode_show ModeSelectionScreen evs) \<noteq> None
        \<and> returned_value (device_show (DeviceSelectionScreen devs sel) evs) \<noteq> None
        \<and> returned_value (settings_show st evs) \<noteq> None
        \<and> returned_value (validation_show sv evs) \<noteq> None
        \<and> returned_value (confirmation_show sc evs) \<noteq> None
        \<and> returned_value (completion_show sf evs) \<noteq> None"
    if q: "''q'' \<in> wait_for_key ` set evs"
  proof (intro conjI)
    show "returned_value (welcome_show w evs) \<noteq> None"
      unfolding welcome_show_def
      by (rule plain_loop_quits [where h = welcome_key, OF welcome_key_no_Raise welcome_key_q q])
    show "returned_value (mode_show ModeSelectionScreen evs) \<noteq> None"
      by (rule mode_show_quits [OF q])
    show "returned_value (device_show (DeviceSelectionScreen devs sel) evs) \<noteq> None"
      by (rule device_show_quits [OF q])
    show "returned_value (settings_show st evs) \<noteq> None"
      unfolding settings_show_def
      by (rule plain_loop_quits [where h = settings_key, OF settings_key_no_Raise settings_key_q q])
    show "returned_value (validation_show sv evs) \<noteq> None"
      unfolding validation_show_def
      by (rule plain_loop_quits [where h = validation_key, OF validation_key_no_Raise validation_key_q q])
    show "returned_value (confirmation_show sc evs) \<noteq> None"
      unfolding confirmation_show_def
      by (rule plain_loop_quits [where h = confirmation_key, OF confirmation_key_no_Raise confirmation_key_q q])
    from q have "evs \<noteq> []" by auto
    then show "returned_value (completion_show sf evs) \<noteq> None"
      by (simp add: completion_show_returns)
  qed
  from val_welcome val_settings val_validation val_confirmation val_installation quits
    mode_show_value [of evs r] device_show_value [of "DeviceSelectionScreen devs sel" evs r]
    completion_show_value [of sf evs r]
  show ?thesis by blast
qed

theorem show_return_values_witness:
  "''q'' \<in> wait_for_key ` set [press ''q'']
   \<and> returned_value (welcome_show () [press ''q'']) = Some (Str ''quit'')
   \<and> returned_value (mode_show ModeSelectionScreen [press ''q'']) = Some (Str ''quit'')
   \<and> returned_value (device_show (DeviceSelectionScreen one_drive []) [press ''q''])
       = Some (Str ''quit'')
   \<and> returned_value (settings_show () [press ''q'']) = Some (Str ''quit'')
   \<and> returned_value (validation_show () [press ''q'']) = Some (Str ''quit'')
   \<and> returned_value (confirmation_show () [press ''q'']) = Some (Str ''quit'')
   \<and> returned_value (snd (installation_show () [press ''q''])) = Some (Str ''success'')
   \<and> returned_value (completion_show () [press ''q'']) = Some (Str ''quit'')"
proof -
  have v: "returned_value (welcome_show () [press ''q'']) = Some (Str ''quit'')"
    "returned_value (mode_show ModeSelectionScreen [press ''q'']) = Some (Str ''quit'')"
    "returned_value (device_show (DeviceSelectionScreen one_drive []) [press ''q''])
       = Some (Str ''quit'')"
    "returned_value (settings_show () [press ''q'']) = Some (Str ''quit'')"
    "returned_value (validation_show () [press ''q'']) = Some (Str ''quit'')"
    "returned_value (confirmation_show () [press ''q'']) = Some (Str ''quit'')"
    "returned_value (completion_show () [press ''q'']) = Some (Str ''quit'')"
    by (simp_all add: welcome_show_def mode_show_def device_show_def settings_show_def
          validation_show_def confirmation_show_def welcome_key_q mode_key_q device_key_q
          settings_key_q validation_key_q confirmation_key_q)
  from show_return_values
         [where w = "()" and evs = "[press ''q'']" and r = "Str ''quit''" and devs = one_drive
            and sel = "[]" and st = "()" and sv = "()" and sc = "()" and si = "()"
            and sf = "()"]
       v
  show ?thesis by simp
qed

end
